theory Spec2Isabelle
  imports Main "HOL-Library.AList" "HOL-Library.Char_ord" "HOL-Library.List_Lexorder"
begin

section \<open>The filesystem, the console and the random source\<close>

text \<open>
  The notebook works on a directory tree through \<^verbatim>\<open>os.listdir\<close>, \<^verbatim>\<open>os.path.isdir\<close>,
  \<^verbatim>\<open>os.remove\<close> and the imaging library's open and save. The tree is a store
  from paths to nodes, kept as an association list so that a listing has an order and a
  length. A path is the list of its components: \<^verbatim>\<open>os.path.join(p, name)\<close> is \<open>p @ [name]\<close>
  (the names come from \<^verbatim>\<open>os.listdir\<close>, so they are never absolute).
\<close>

type_synonym path = "string list"

datatype 'c node = File 'c | Dir

type_synonym 'c fs = "(path \<times> 'c node) list"

datatype error = IndexError | FileNotFoundError | NotADirectoryError | IsADirectoryError

datatype event =
    Checking path
  | DeletingNonImage path
  | CorruptedRemoved path
  | Augmenting path nat int
  | ErrorAugmenting string

text \<open>The world a function runs in: the files, the lines printed so far (one event per
  \<^verbatim>\<open>print\<close> call) and the number of random draws consumed.\<close>

record 'c world =
  files :: "'c fs"
  console :: "event list"
  draws :: nat

text \<open>One draw of the random generator per loop iteration: the index for
  \<^verbatim>\<open>random.choice\<close>, the number for \<^verbatim>\<open>random.randint\<close> and the parameters the
  transform chain samples.\<close>

record draw =
  pick :: nat
  suffix :: nat
  seed :: nat

text \<open>The imaging library (PIL and torchvision) is a parameter: whether
  \<^verbatim>\<open>Image.open(p).verify()\<close> passes on a file's bytes, what
  \<^verbatim>\<open>Image.open(p).convert('RGB')\<close> decodes, what the transform chain returns, and what
  \<^verbatim>\<open>img.save(name)\<close> encodes for a file name. \<open>None\<close> is a raised exception.\<close>

record ('c, 'i) imaging =
  verify :: "'c \<Rightarrow> bool"
  open_rgb :: "'c \<Rightarrow> 'i option"
  augmentations :: "nat \<Rightarrow> 'i \<Rightarrow> 'i option"
  save :: "string \<Rightarrow> 'i \<Rightarrow> 'c option"

subsection \<open>Operating-system calls\<close>

text \<open>\<^verbatim>\<open>os.listdir\<close> raises on a missing path and on a file; \<^verbatim>\<open>os.remove\<close> raises on a
  missing path and on a directory; opening a file for reading or writing raises on a
  directory, and writing also when the parent is not a directory. Writing replaces the
  content of a path that exists and appends a path that does not.\<close>

definition children :: "'c fs \<Rightarrow> path \<Rightarrow> string list" where
  "children fs p = map last (filter (\<lambda>q. q \<noteq> [] \<and> butlast q = p) (map fst fs))"

definition listdir :: "'c fs \<Rightarrow> path \<Rightarrow> error + string list" where
  "listdir fs p =
     (case map_of fs p of
        None \<Rightarrow> Inl FileNotFoundError
      | Some (File c) \<Rightarrow> Inl NotADirectoryError
      | Some Dir \<Rightarrow> Inr (children fs p))"

definition isdir :: "'c fs \<Rightarrow> path \<Rightarrow> bool" where
  "isdir fs p = (map_of fs p = Some Dir)"

definition os_remove :: "'c fs \<Rightarrow> path \<Rightarrow> error + 'c fs" where
  "os_remove fs p =
     (case map_of fs p of
        None \<Rightarrow> Inl FileNotFoundError
      | Some Dir \<Rightarrow> Inl IsADirectoryError
      | Some (File c) \<Rightarrow> Inr (AList.delete p fs))"

definition read_file :: "'c fs \<Rightarrow> path \<Rightarrow> error + 'c" where
  "read_file fs p =
     (case map_of fs p of
        None \<Rightarrow> Inl FileNotFoundError
      | Some Dir \<Rightarrow> Inl IsADirectoryError
      | Some (File c) \<Rightarrow> Inr c)"

definition write_file :: "'c fs \<Rightarrow> path \<Rightarrow> 'c \<Rightarrow> error + 'c fs" where
  "write_file fs p c =
     (if map_of fs p = Some Dir then Inl IsADirectoryError
      else if p = [] \<or> \<not> isdir fs (butlast p) then Inl FileNotFoundError
      else Inr (AList.update p (File c) fs))"

subsection \<open>Strings and random numbers\<close>

text \<open>\<^verbatim>\<open>str.lower\<close> on the letters A to Z (no other character lowers to a letter of
  \<^verbatim>\<open>jpg\<close>, \<^verbatim>\<open>jpeg\<close> or \<^verbatim>\<open>png\<close>), and \<^verbatim>\<open>str.endswith\<close>.\<close>

definition lower_char :: "char \<Rightarrow> char" where
  "lower_char c =
     (case map_of (zip ''ABCDEFGHIJKLMNOPQRSTUVWXYZ'' ''abcdefghijklmnopqrstuvwxyz'') c of
        None \<Rightarrow> c | Some d \<Rightarrow> d)"

definition lower :: "string \<Rightarrow> string" where
  "lower s = map lower_char s"

definition endswith :: "string \<Rightarrow> string \<Rightarrow> bool" where
  "endswith s suf = (length suf \<le> length s \<and> drop (length s - length suf) s = suf)"

text \<open>\<^verbatim>\<open>fname.lower().endswith(('jpg', 'jpeg', 'png'))\<close>: the suffixes carry no dot.\<close>

definition image_suffix :: "string \<Rightarrow> bool" where
  "image_suffix fname =
     (endswith (lower fname) ''jpg'' \<or> endswith (lower fname) ''jpeg''
      \<or> endswith (lower fname) ''png'')"

text \<open>The decimal digits of a number, as an f-string prints it.\<close>

definition digit_char :: "nat \<Rightarrow> char" where
  "digit_char d = ''0123456789'' ! d"

fun str_nat :: "nat \<Rightarrow> string" where
  "str_nat n = (if n < 10 then [digit_char n] else str_nat (n div 10) @ [digit_char (n mod 10)])"

declare str_nat.simps [simp del]

text \<open>\<^verbatim>\<open>random.choice(xs)\<close> raises \<^verbatim>\<open>IndexError\<close> on an empty list and returns an
  element otherwise; \<^verbatim>\<open>random.randint(a, b)\<close> returns a number from \<open>a\<close> to \<open>b\<close>. The
  first argument is the draw; every element and every number is the result of some
  draw.\<close>

definition random_choice :: "nat \<Rightarrow> 'a list \<Rightarrow> error + 'a" where
  "random_choice r xs = (if xs = [] then Inl IndexError else Inr (xs ! (r mod length xs)))"

definition random_randint :: "nat \<Rightarrow> nat \<Rightarrow> nat \<Rightarrow> nat" where
  "random_randint r a b = a + r mod (b - a + 1)"

section \<open>Paths\<close>

definition DATASET_DIR :: path where
  "DATASET_DIR = [''ewaste-dataset'']"

definition TRAIN_DIR :: path where
  "TRAIN_DIR = DATASET_DIR @ [''train'']"

definition VAL_DIR :: path where
  "VAL_DIR = DATASET_DIR @ [''val'']"

definition TEST_DIR :: path where
  "TEST_DIR = DATASET_DIR @ [''test'']"

definition TARGET_COUNT :: int where
  "TARGET_COUNT = 500"

section \<open>Helpers\<close>

definition list_classes :: "'c fs \<Rightarrow> path \<Rightarrow> error + string list" where
  "list_classes fs base_path =
     (case listdir fs base_path of
        Inl e \<Rightarrow> Inl e
      | Inr ds \<Rightarrow> Inr (sort (filter (\<lambda>d. isdir fs (base_path @ [d])) ds)))"

text \<open>The dictionary \<^verbatim>\<open>counts\<close> keeps insertion order; assigning to a key that is
  already there keeps its place.\<close>

fun count_loop ::
  "'c fs \<Rightarrow> path \<Rightarrow> string list \<Rightarrow> (string \<times> nat) list \<Rightarrow> error + (string \<times> nat) list" where
  "count_loop fs base_path [] counts = Inr counts"
| "count_loop fs base_path (cls # rest) counts =
     (case listdir fs (base_path @ [cls]) of
        Inl e \<Rightarrow> Inl e
      | Inr names \<Rightarrow>
          count_loop fs base_path rest
            (AList.update cls (length (filter image_suffix names)) counts))"

text \<open>The function is given the world and hands it back: every call it makes
  (\<^verbatim>\<open>os.listdir\<close>, \<^verbatim>\<open>os.path.isdir\<close>) only reads.\<close>

definition count_images_in_classes ::
  "path \<Rightarrow> 'c world \<Rightarrow> (error + (string \<times> nat) list) \<times> 'c world" where
  "count_images_in_classes base_path w =
     (case list_classes (files w) base_path of
        Inl e \<Rightarrow> (Inl e, w)
      | Inr classes \<Rightarrow> (count_loop (files w) base_path classes [], w))"

text \<open>\<^verbatim>\<open>Image.open(fpath); img.verify()\<close> inside \<^verbatim>\<open>try\<close>: a directory or a missing
  path raises as a broken image does.\<close>

definition image_verifies :: "('c, 'i) imaging \<Rightarrow> 'c fs \<Rightarrow> path \<Rightarrow> bool" where
  "image_verifies L fs fpath =
     (case read_file fs fpath of Inl e \<Rightarrow> False | Inr c \<Rightarrow> verify L c)"

fun clean_files ::
  "('c, 'i) imaging \<Rightarrow> path \<Rightarrow> string list \<Rightarrow> 'c world \<Rightarrow> error + 'c world" where
  "clean_files L cls_path [] w = Inr w"
| "clean_files L cls_path (fname # rest) w =
     (let fpath = cls_path @ [fname] in
      if \<not> image_suffix fname then
        (case os_remove (files w) fpath of
           Inl e \<Rightarrow> Inl e
         | Inr fs' \<Rightarrow>
             clean_files L cls_path rest
               (w\<lparr>console := console w @ [DeletingNonImage fpath], files := fs'\<rparr>))
      else if image_verifies L (files w) fpath then clean_files L cls_path rest w
      else
        (case os_remove (files w) fpath of
           Inl e \<Rightarrow> Inl e
         | Inr fs' \<Rightarrow>
             clean_files L cls_path rest
               (w\<lparr>console := console w @ [CorruptedRemoved fpath], files := fs'\<rparr>)))"

fun clean_classes ::
  "('c, 'i) imaging \<Rightarrow> path \<Rightarrow> string list \<Rightarrow> 'c world \<Rightarrow> error + 'c world" where
  "clean_classes L base_path [] w = Inr w"
| "clean_classes L base_path (cls # rest) w =
     (case listdir (files w) (base_path @ [cls]) of
        Inl e \<Rightarrow> Inl e
      | Inr names \<Rightarrow>
          (case clean_files L (base_path @ [cls]) names w of
             Inl e \<Rightarrow> Inl e
           | Inr w' \<Rightarrow> clean_classes L base_path rest w'))"

definition remove_corrupted_and_non_images ::
  "('c, 'i) imaging \<Rightarrow> path \<Rightarrow> 'c world \<Rightarrow> error + 'c world" where
  "remove_corrupted_and_non_images L base_path w =
     (let w0 = w\<lparr>console := console w @ [Checking base_path]\<rparr> in
      case list_classes (files w0) base_path of
        Inl e \<Rightarrow> Inl e
      | Inr classes \<Rightarrow> clean_classes L base_path classes w0)"

section \<open>Augmentation\<close>

definition new_name :: "draw \<Rightarrow> string \<Rightarrow> string" where
  "new_name d img_name = ''aug_'' @ str_nat (random_randint (suffix d) 10000 99999) @ ''_'' @ img_name"

text \<open>The body of \<^verbatim>\<open>try\<close>; \<open>None\<close> is any exception raised in it, all of which
  \<^verbatim>\<open>except Exception\<close> catches. A save that raises leaves the directory as it was.\<close>

definition try_augment ::
  "('c, 'i) imaging \<Rightarrow> 'c fs \<Rightarrow> path \<Rightarrow> string \<Rightarrow> draw \<Rightarrow> 'c fs option" where
  "try_augment L fs class_path img_name d =
     (case read_file fs (class_path @ [img_name]) of
        Inl e \<Rightarrow> None
      | Inr c \<Rightarrow>
          (case open_rgb L c of
             None \<Rightarrow> None
           | Some img \<Rightarrow>
               (case augmentations L (seed d) img of
                  None \<Rightarrow> None
                | Some aug_img \<Rightarrow>
                    (case save L (new_name d img_name) aug_img of
                       None \<Rightarrow> None
                     | Some c' \<Rightarrow>
                         (case write_file fs (class_path @ [new_name d img_name]) c' of
                            Inl e \<Rightarrow> None
                          | Inr fs' \<Rightarrow> Some fs')))))"

definition loop_body ::
  "('c, 'i) imaging \<Rightarrow> path \<Rightarrow> string \<Rightarrow> draw \<Rightarrow> 'c world \<Rightarrow> 'c world" where
  "loop_body L class_path img_name d w =
     (case try_augment L (files w) class_path img_name d of
        None \<Rightarrow> w\<lparr>console := console w @ [ErrorAugmenting img_name], draws := Suc (draws w)\<rparr>
      | Some fs' \<Rightarrow> w\<lparr>files := fs', draws := Suc (draws w)\<rparr>)"

text \<open>The \<^verbatim>\<open>while\<close> loop. It ends only when the listing is long enough or
  \<^verbatim>\<open>random.choice\<close> raises, so it is a partial function: \<open>None\<close> is a run that never
  returns. \<open>images\<close> is the listing read before the loop.\<close>

partial_function (option) augment_loop ::
  "('c, 'i) imaging \<Rightarrow> (nat \<Rightarrow> draw) \<Rightarrow> path \<Rightarrow> int \<Rightarrow> string list \<Rightarrow> 'c world
     \<Rightarrow> (error + 'c world) option" where
  "augment_loop L rnd class_path target_count images w =
     (case listdir (files w) class_path of
        Inl e \<Rightarrow> Some (Inl e)
      | Inr cur \<Rightarrow>
          if int (length cur) < target_count then
            (case random_choice (pick (rnd (draws w))) images of
               Inl e \<Rightarrow> Some (Inl e)
             | Inr img_name \<Rightarrow>
                 augment_loop L rnd class_path target_count images
                   (loop_body L class_path img_name (rnd (draws w)) w))
          else Some (Inr w))"

declare augment_loop.simps [code]

definition augment_class_images ::
  "('c, 'i) imaging \<Rightarrow> (nat \<Rightarrow> draw) \<Rightarrow> path \<Rightarrow> int \<Rightarrow> 'c world \<Rightarrow> (error + 'c world) option" where
  "augment_class_images L rnd class_path target_count w =
     (case listdir (files w) class_path of
        Inl e \<Rightarrow> Some (Inl e)
      | Inr images \<Rightarrow>
          augment_loop L rnd class_path target_count images
            (w\<lparr>console := console w @ [Augmenting class_path (length images) target_count]\<rparr>))"

section \<open>Step 5: balance classes via augmentation\<close>

text \<open>The loop over the keys of \<^verbatim>\<open>train_stats\<close>, with the directory and the target as
  parameters; the script runs it at \<open>TRAIN_DIR\<close> and \<open>TARGET_COUNT\<close>, on the statistics
  of step 2 (steps 3 and 4, between them, only plot).\<close>

fun balance_classes ::
  "('c, 'i) imaging \<Rightarrow> (nat \<Rightarrow> draw) \<Rightarrow> path \<Rightarrow> int \<Rightarrow> string list \<Rightarrow> 'c world
     \<Rightarrow> (error + 'c world) option" where
  "balance_classes L rnd train_dir target [] w = Some (Inr w)"
| "balance_classes L rnd train_dir target (cls # rest) w =
     (case listdir (files w) (train_dir @ [cls]) of
        Inl e \<Rightarrow> Some (Inl e)
      | Inr cur \<Rightarrow>
          if int (length cur) < target then
            (case augment_class_images L rnd (train_dir @ [cls]) target w of
               None \<Rightarrow> None
             | Some (Inl e) \<Rightarrow> Some (Inl e)
             | Some (Inr w') \<Rightarrow> balance_classes L rnd train_dir target rest w')
          else balance_classes L rnd train_dir target rest w)"

definition step5 ::
  "('c, 'i) imaging \<Rightarrow> (nat \<Rightarrow> draw) \<Rightarrow> (string \<times> nat) list \<Rightarrow> 'c world
     \<Rightarrow> (error + 'c world) option" where
  "step5 L rnd train_stats w =
     balance_classes L rnd TRAIN_DIR TARGET_COUNT (map fst train_stats) w"

section \<open>Predicates for the proofs\<close>

text \<open>What is known when the \<^verbatim>\<open>while\<close> loop has ended, for a property \<open>I\<close> of the world
  that every iteration keeps: it returned with the listing at the target, or
  \<^verbatim>\<open>os.listdir\<close> raised, or \<^verbatim>\<open>random.choice\<close> raised on an empty \<open>images\<close>.\<close>

definition loop_post ::
  "('c world \<Rightarrow> bool) \<Rightarrow> path \<Rightarrow> int \<Rightarrow> string list \<Rightarrow> error + 'c world \<Rightarrow> bool" where
  "loop_post I p t images r =
     ((\<exists>w' cur. r = Inr w' \<and> I w' \<and> listdir (files w') p = Inr cur \<and> t \<le> int (length cur))
       \<or> (\<exists>v e. r = Inl e \<and> I v \<and> listdir (files v) p = Inl e)
       \<or> (\<exists>v cur. r = Inl IndexError \<and> I v \<and> listdir (files v) p = Inr cur
              \<and> int (length cur) < t \<and> images = []))"


text \<open>What the cleanup decides for a name in a class directory: it stays when both tests
  of the loop body pass.\<close>

definition kept :: "('c, 'i) imaging \<Rightarrow> 'c fs \<Rightarrow> path \<Rightarrow> string \<Rightarrow> bool" where
  "kept L fs cls_path fname = (image_suffix fname \<and> image_verifies L fs (cls_path @ [fname]))"


text \<open>\<open>grown A fs fs'\<close>: the store \<open>fs'\<close> is \<open>fs\<close> with files written at paths of \<open>A\<close>
  only: new paths are appended, and no path is lost or turned from or into a directory.\<close>

definition grown :: "path set \<Rightarrow> 'c fs \<Rightarrow> 'c fs \<Rightarrow> bool" where
  "grown A fs fs' =
     ((\<exists>new. map fst fs' = map fst fs @ new \<and> set new \<subseteq> A)
      \<and> (\<forall>q. map_of fs' q = map_of fs q
             \<or> (q \<in> A \<and> map_of fs q \<noteq> Some Dir \<and> (\<exists>c. map_of fs' q = Some (File c)))))"


text \<open>The paths a call on \<open>p\<close> with the listing \<open>images\<close> can write, and the paths
  step 5 can write under \<open>train_dir\<close>.\<close>

definition aug_paths :: "path \<Rightarrow> string list \<Rightarrow> path set" where
  "aug_paths p images = {p @ [new_name d n] | d n. n \<in> set images}"

definition aug_area :: "path \<Rightarrow> path set" where
  "aug_area train_dir = {train_dir @ [cls, ''aug_'' @ s] | cls s. True}"


text \<open>After the spec: an accepted extension is one of \<^verbatim>\<open>.jpg\<close>, \<^verbatim>\<open>.jpeg\<close>,
  \<^verbatim>\<open>.png\<close>, compared case-insensitively. The dot is part of it.\<close>

definition spec_accepted_extension :: "string \<Rightarrow> bool" where
  "spec_accepted_extension fname =
     (endswith (lower fname) ''.jpg'' \<or> endswith (lower fname) ''.jpeg''
      \<or> endswith (lower fname) ''.png'')"


text \<open>The file-name convention \<^verbatim>\<open>aug_<5 digits>_<original name>\<close>.\<close>

definition is_digit :: "char \<Rightarrow> bool" where
  "is_digit c = (c \<in> set ''0123456789'')"

definition aug_pattern :: "string \<Rightarrow> string \<Rightarrow> bool" where
  "aug_pattern name original =
     (take 4 name = ''aug_'' \<and> length (take 5 (drop 4 name)) = 5
      \<and> list_all is_digit (take 5 (drop 4 name))
      \<and> drop 9 name = ''_'' @ original)"


text \<open>The part of the store outside a directory, and the part at and below it.\<close>

definition outside :: "path \<Rightarrow> 'c fs \<Rightarrow> 'c fs" where
  "outside dir fs = filter (\<lambda>kv. take (length dir) (fst kv) \<noteq> dir) fs"

definition under :: "path \<Rightarrow> 'c fs \<Rightarrow> 'c fs" where
  "under dir fs = filter (\<lambda>kv. take (length dir) (fst kv) = dir) fs"


text \<open>The paths step 5 can write under \<open>train_dir\<close>, given the store it starts from: in
  a class directory, a name generated from the name of an entry of that directory.\<close>

definition aug_targets :: "path \<Rightarrow> 'c fs \<Rightarrow> path set" where
  "aug_targets train_dir fs =
     {train_dir @ [cls, new_name d src] | cls d src. map_of fs (train_dir @ [cls, src]) \<noteq> None}"


text \<open>The file name that iteration \<open>i\<close> of the loop generates (counting from \<open>0\<close>) in a
  call that starts in the world \<open>w\<close> with the listing \<open>images\<close>: every iteration takes one
  draw, picks the source with \<^verbatim>\<open>random.choice\<close> and the number with
  \<^verbatim>\<open>random.randint\<close>.\<close>

definition generated_name :: "(nat \<Rightarrow> draw) \<Rightarrow> string list \<Rightarrow> 'c world \<Rightarrow> nat \<Rightarrow> string" where
  "generated_name rnd images w i =
     new_name (rnd (draws w + i)) (images ! (pick (rnd (draws w + i)) mod length images))"


section \<open>Examples\<close>

text \<open>A small imaging library: file contents are numbers, \<open>0\<close> is garbage, any other
  number decodes to itself; the transform adds 100; saving works under a name with an
  image suffix. Two random sources: one whose \<open>i\<close>-th draw picks index \<open>i\<close> and the number
  \<open>10000 + i\<close>, and one that repeats a single draw for ever.\<close>

definition demo_imaging :: "(nat, nat) imaging" where
  "demo_imaging =
     \<lparr>verify = (\<lambda>c. c \<noteq> 0),
      open_rgb = (\<lambda>c. if c = 0 then None else Some c),
      augmentations = (\<lambda>s i. Some (i + 100)),
      save = (\<lambda>n i. if image_suffix n then Some i else None)\<rparr>"

definition demo_rnd :: "nat \<Rightarrow> draw" where
  "demo_rnd i = \<lparr>pick = i, suffix = i, seed = 0\<rparr>"

text \<open>A random source whose first two draws are equal: both pick the first file and
  the number 10000; the third draw gives 10001.\<close>

definition repeat_rnd :: "nat \<Rightarrow> draw" where
  "repeat_rnd i = \<lparr>pick = 0, suffix = i div 2, seed = 0\<rparr>"


text \<open>A split directory \<^verbatim>\<open>d\<close> with a class of four entries (one not an image by name,
  one with garbage content) and an empty class; the world after cleanup; the world after
  a call of \<^verbatim>\<open>augment_class_images\<close> on the first class with target 5.\<close>

definition demo_fs :: "nat fs" where
  "demo_fs =
     [([''d''], Dir),
      ([''d'', ''cat''], Dir),
      ([''d'', ''cat'', ''a.jpg''], File 1),
      ([''d'', ''cat'', ''notes.txt''], File 2),
      ([''d'', ''cat'', ''b.PNG''], File 0),
      ([''d'', ''cat'', ''c.png''], File 3),
      ([''d'', ''dog''], Dir),
      ([''d'', ''readme''], File 5)]"

definition demo_world :: "nat world" where
  "demo_world = \<lparr>files = demo_fs, console = [], draws = 0\<rparr>"

definition demo_cleaned :: "nat world" where
  "demo_cleaned =
     \<lparr>files = [([''d''], Dir),
               ([''d'', ''cat''], Dir),
               ([''d'', ''cat'', ''a.jpg''], File 1),
               ([''d'', ''cat'', ''c.png''], File 3),
               ([''d'', ''dog''], Dir),
               ([''d'', ''readme''], File 5)],
      console = [Checking [''d''], DeletingNonImage [''d'', ''cat'', ''notes.txt''],
                 CorruptedRemoved [''d'', ''cat'', ''b.PNG'']],
      draws = 0\<rparr>"

definition demo_world5 :: "nat world" where
  "demo_world5 =
     \<lparr>files = demo_fs @ [([''d'', ''cat'', ''aug_10000_a.jpg''], File 101)],
      console = [Augmenting [''d'', ''cat''] 4 5], draws = 1\<rparr>"


text \<open>A class directory with one file whose name ends in \<^verbatim>\<open>png\<close> without a dot and
  whose content is a sound image.\<close>

definition nodot_world :: "nat world" where
  "nodot_world =
     \<lparr>files = [([''d''], Dir), ([''d'', ''cat''], Dir), ([''d'', ''cat'', ''notes_png''], File 1)],
      console = [], draws = 0\<rparr>"


text \<open>A class directory with a single image.\<close>

definition single_world :: "nat world" where
  "single_world =
     \<lparr>files = [([''d''], Dir), ([''d'', ''cat''], Dir), ([''d'', ''cat'', ''a.jpg''], File 1)],
      console = [], draws = 0\<rparr>"


text \<open>A class directory with three sound \<^verbatim>\<open>.jpg\<close> files.\<close>

definition three_fs :: "nat fs" where
  "three_fs =
     [([''d''], Dir),
      ([''d'', ''cat''], Dir),
      ([''d'', ''cat'', ''a.jpg''], File 1),
      ([''d'', ''cat'', ''b.jpg''], File 2),
      ([''d'', ''cat'', ''c.jpg''], File 3)]"

definition three_world :: "nat world" where
  "three_world = \<lparr>files = three_fs, console = [], draws = 0\<rparr>"



text \<open>A class directory in which one of the three files is itself named like an augmented
  copy of another, and the worlds after each of the three iterations of a call with
  target 5.\<close>

definition clash_world :: "nat world" where
  "clash_world =
     \<lparr>files = [([''d''], Dir),
               ([''d'', ''cat''], Dir),
               ([''d'', ''cat'', ''a.jpg''], File 1),
               ([''d'', ''cat'', ''b.jpg''], File 2),
               ([''d'', ''cat'', ''aug_10000_a.jpg''], File 50)],
      console = [], draws = 0\<rparr>"

definition clash_world1 :: "nat world" where
  "clash_world1 =
     \<lparr>files = [([''d''], Dir),
               ([''d'', ''cat''], Dir),
               ([''d'', ''cat'', ''a.jpg''], File 1),
               ([''d'', ''cat'', ''b.jpg''], File 2),
               ([''d'', ''cat'', ''aug_10000_a.jpg''], File 101)],
      console = [Augmenting [''d'', ''cat''] 3 5], draws = 1\<rparr>"

definition clash_world2 :: "nat world" where
  "clash_world2 =
     \<lparr>files = files clash_world1 @ [([''d'', ''cat'', ''aug_10001_b.jpg''], File 102)],
      console = [Augmenting [''d'', ''cat''] 3 5], draws = 2\<rparr>"

definition clash_world3 :: "nat world" where
  "clash_world3 =
     \<lparr>files = files clash_world2 @ [([''d'', ''cat'', ''aug_10002_aug_10000_a.jpg''], File 201)],
      console = [Augmenting [''d'', ''cat''] 3 5], draws = 3\<rparr>"


text \<open>A small dataset under \<open>DATASET_DIR\<close> with the three splits, and the world after
  step 5 has run on it with the target 2.\<close>

definition dataset_fs :: "nat fs" where
  "dataset_fs =
     [(DATASET_DIR, Dir),
      (TRAIN_DIR, Dir),
      (TRAIN_DIR @ [''cat''], Dir),
      (TRAIN_DIR @ [''cat'', ''a.jpg''], File 1),
      (TRAIN_DIR @ [''dog''], Dir),
      (TRAIN_DIR @ [''dog'', ''d1.png''], File 2),
      (TRAIN_DIR @ [''dog'', ''d2.png''], File 3),
      (VAL_DIR, Dir),
      (VAL_DIR @ [''cat''], Dir),
      (VAL_DIR @ [''cat'', ''v.jpg''], File 4),
      (TEST_DIR, Dir),
      (TEST_DIR @ [''cat''], Dir),
      (TEST_DIR @ [''cat'', ''t.jpeg''], File 5)]"

definition dataset_world :: "nat world" where
  "dataset_world = \<lparr>files = dataset_fs, console = [], draws = 0\<rparr>"

definition dataset_world2 :: "nat world" where
  "dataset_world2 =
     \<lparr>files = dataset_fs @ [(TRAIN_DIR @ [''cat'', ''aug_10000_a.jpg''], File 101)],
      console = [Augmenting (TRAIN_DIR @ [''cat'']) 1 2], draws = 1\<rparr>"


section \<open>The store\<close>

lemma map_of_keys: "(map_of fs k \<noteq> None) = (k \<in> set (map fst fs))"
  by (simp add: map_of_eq_None_iff)

lemma children_update:
  "children (AList.update k v fs) q =
     (if map_of fs k \<noteq> None \<or> k = [] \<or> butlast k \<noteq> q then children fs q
      else children fs q @ [last k])"
  by (auto simp: children_def AList.update_keys map_of_eq_None_iff)

lemma filter_key_keys: "map fst (filter (\<lambda>kv. Q (fst kv)) fs) = filter Q (map fst fs)"
  by (induction fs) auto

lemma map_of_filter_key:
  "map_of (filter (\<lambda>kv. Q (fst kv)) fs) k = (if Q k then map_of fs k else None)"
  by (induction fs) auto

lemma children_filter_key:
  "children (filter (\<lambda>kv. Q (fst kv)) fs) q = filter (\<lambda>n. Q (q @ [n])) (children fs q)"
proof -
  have "map last (filter (\<lambda>k. k \<noteq> [] \<and> butlast k = q) (filter Q ks))
        = filter (\<lambda>n. Q (q @ [n])) (map last (filter (\<lambda>k. k \<noteq> [] \<and> butlast k = q) ks))" for ks
  proof (induction ks)
    case Nil
    show ?case by simp
  next
    case (Cons k ks)
    show ?case
    proof (cases "k \<noteq> [] \<and> butlast k = q")
      case True
      then have "q @ [last k] = k" by auto
      with True Cons show ?thesis by simp
    next
      case False
      with Cons show ?thesis by auto
    qed
  qed
  then show ?thesis by (simp add: children_def filter_key_keys)
qed

lemma delete_as_filter: "AList.delete k fs = filter (\<lambda>kv. fst kv \<noteq> k) fs"
  by (induction fs) (auto simp: AList.delete_eq)

lemma children_member: "n \<in> set (children fs q) \<longleftrightarrow> q @ [n] \<in> set (map fst fs)"
proof -
  have "n \<in> set (children fs q) \<longleftrightarrow> (\<exists>k \<in> set (map fst fs). k \<noteq> [] \<and> butlast k = q \<and> last k = n)"
    by (auto simp: children_def)
  also have "\<dots> \<longleftrightarrow> q @ [n] \<in> set (map fst fs)"
    by (metis butlast_snoc last_snoc snoc_eq_iff_butlast)
  finally show ?thesis .
qed

section \<open>One iteration of the augmentation loop\<close>

lemma try_augment_SomeD:
  assumes "try_augment L fs p n d = Some fs'"
  shows "\<exists>c c'. map_of fs (p @ [n]) = Some (File c)
           \<and> fs' = AList.update (p @ [new_name d n]) (File c') fs
           \<and> map_of fs (p @ [new_name d n]) \<noteq> Some Dir \<and> isdir fs p"
  using assms
  by (auto simp: try_augment_def read_file_def write_file_def
           split: sum.splits option.splits node.splits if_splits)

lemma loop_body_cases:
  obtains (failed) "try_augment L (files w) p n d = None"
      "loop_body L p n d w = w\<lparr>console := console w @ [ErrorAugmenting n], draws := Suc (draws w)\<rparr>"
  | (saved) c c' where "map_of (files w) (p @ [n]) = Some (File c)"
      "map_of (files w) (p @ [new_name d n]) \<noteq> Some Dir" "isdir (files w) p"
      "loop_body L p n d w =
         w\<lparr>files := AList.update (p @ [new_name d n]) (File c') (files w), draws := Suc (draws w)\<rparr>"
proof (cases "try_augment L (files w) p n d")
  case None
  then show ?thesis using failed by (simp add: loop_body_def)
next
  case (Some fs')
  from try_augment_SomeD[OF Some] obtain c c' where
    "map_of (files w) (p @ [n]) = Some (File c)"
    "fs' = AList.update (p @ [new_name d n]) (File c') (files w)"
    "map_of (files w) (p @ [new_name d n]) \<noteq> Some Dir" "isdir (files w) p"
    by blast
  with Some show ?thesis using saved by (simp add: loop_body_def)
qed

lemma random_choice_mem: "random_choice r xs = Inr x \<Longrightarrow> x \<in> set xs"
  by (auto simp: random_choice_def split: if_splits)

section \<open>The loop\<close>

text \<open>The rule for every property of a finished loop: a property that holds at the start
  and that an iteration keeps, while the listing is short, holds at the end.\<close>

lemma augment_loop_rule:
  assumes ret: "augment_loop L rnd p t images w = Some r"
    and init: "I w"
    and step: "\<And>v n cur. I v \<Longrightarrow> listdir (files v) p = Inr cur \<Longrightarrow> int (length cur) < t
                 \<Longrightarrow> images \<noteq> [] \<Longrightarrow> n = images ! (pick (rnd (draws v)) mod length images)
                 \<Longrightarrow> I (loop_body L p n (rnd (draws v)) v)"
  shows "loop_post I p t images r"
proof -
  define P where "P = (\<lambda>L' rnd' p' t' images' w r.
     L' = L \<and> rnd' = rnd \<and> p' = p \<and> t' = t \<and> images' = images \<longrightarrow> I w \<longrightarrow> loop_post I p t images r)"
  have "P L rnd p t images w r"
  proof (rule augment_loop.raw_induct[where P = P, OF _ ret])
    fix f L' rnd' p' t' images' w r
    assume IH: "\<And>L' rnd' p' t' images' w r. f L' rnd' p' t' images' w = Some r
                  \<Longrightarrow> P L' rnd' p' t' images' w r"
      and body: "(case listdir (files w) p' of Inl e \<Rightarrow> Some (Inl e)
        | Inr cur \<Rightarrow>
            if int (length cur) < t'
            then case random_choice (pick (rnd' (draws w))) images' of
                 Inl e \<Rightarrow> Some (Inl e)
                 | Inr img_name \<Rightarrow>
                     f L' rnd' p' t' images' (loop_body L' p' img_name (rnd' (draws w)) w)
            else Some (Inr w)) = Some r"
    show "P L' rnd' p' t' images' w r"
      unfolding P_def
    proof (intro impI, elim conjE)
      assume eqs: "L' = L" "rnd' = rnd" "p' = p" "t' = t" "images' = images" and Iw: "I w"
      show "loop_post I p t images r"
      proof (cases "listdir (files w) p")
        case (Inl e)
        with body eqs have "r = Inl e" by simp
        with Inl Iw show ?thesis unfolding loop_post_def by blast
      next
        case (Inr cur)
        note cur = Inr
        show ?thesis
        proof (cases "int (length cur) < t")
          case False
          with body eqs cur have "r = Inr w" by simp
          with cur False Iw show ?thesis unfolding loop_post_def by auto
        next
          case True
          show ?thesis
          proof (cases "random_choice (pick (rnd (draws w))) images")
            case (Inl e)
            then have "images = []" "e = IndexError"
              by (auto simp: random_choice_def split: if_splits)
            moreover from body eqs cur True Inl have "r = Inl e" by simp
            ultimately show ?thesis using cur True Iw unfolding loop_post_def by blast
          next
            case (Inr n)
            then have ne: "images \<noteq> []"
              and n: "n = images ! (pick (rnd (draws w)) mod length images)"
              by (auto simp: random_choice_def split: if_splits)
            from body eqs cur True Inr
            have "f L rnd p t images (loop_body L p n (rnd (draws w)) w) = Some r" by simp
            from IH[OF this] step[OF Iw cur True ne n]
            show ?thesis by (simp add: P_def)
          qed
        qed
      qed
    qed
  qed
  with init show ?thesis by (simp add: P_def)
qed

lemma augment_loop_done:
  "listdir (files w) p = Inr cur \<Longrightarrow> \<not> int (length cur) < t \<Longrightarrow>
   augment_loop L rnd p t images w = Some (Inr w)"
  by (subst augment_loop.simps) simp

lemma augment_loop_empty:
  "listdir (files w) p = Inr cur \<Longrightarrow> int (length cur) < t \<Longrightarrow>
   augment_loop L rnd p t [] w = Some (Inl IndexError)"
  by (subst augment_loop.simps) (simp add: random_choice_def)

lemma augment_loop_step:
  "listdir (files w) p = Inr cur \<Longrightarrow> int (length cur) < t \<Longrightarrow> images \<noteq> [] \<Longrightarrow>
   augment_loop L rnd p t images w =
   augment_loop L rnd p t images
     (loop_body L p (images ! (pick (rnd (draws w)) mod length images)) (rnd (draws w)) w)"
  by (subst augment_loop.simps) (simp add: random_choice_def)


section \<open>Directories that only grow\<close>

lemma grown_refl: "grown A fs fs"
  by (simp add: grown_def)

lemma grown_trans:
  assumes "grown A fs fs'" and "grown A fs' fs''"
  shows "grown A fs fs''"
proof -
  from assms obtain new new' where
    "map fst fs' = map fst fs @ new" "set new \<subseteq> A"
    "map fst fs'' = map fst fs' @ new'" "set new' \<subseteq> A"
    unfolding grown_def by blast
  then have "map fst fs'' = map fst fs @ (new @ new') \<and> set (new @ new') \<subseteq> A" by simp
  then have keys: "\<exists>n. map fst fs'' = map fst fs @ n \<and> set n \<subseteq> A" by blast
  have "map_of fs'' q = map_of fs q
      \<or> (q \<in> A \<and> map_of fs q \<noteq> Some Dir \<and> (\<exists>c. map_of fs'' q = Some (File c)))" for q
  proof -
    from assms(1) have 1: "map_of fs' q = map_of fs q
      \<or> (q \<in> A \<and> map_of fs q \<noteq> Some Dir \<and> (\<exists>c. map_of fs' q = Some (File c)))"
      unfolding grown_def by blast
    from assms(2) have 2: "map_of fs'' q = map_of fs' q
      \<or> (q \<in> A \<and> map_of fs' q \<noteq> Some Dir \<and> (\<exists>c. map_of fs'' q = Some (File c)))"
      unfolding grown_def by blast
    from 1 2 show ?thesis by (elim disjE) auto
  qed
  with keys show ?thesis unfolding grown_def by blast
qed

lemma grown_mono: "grown A fs fs' \<Longrightarrow> A \<subseteq> B \<Longrightarrow> grown B fs fs'"
  unfolding grown_def by (meson subset_trans subsetD)

lemma grown_update:
  "k \<in> A \<Longrightarrow> map_of fs k \<noteq> Some Dir \<Longrightarrow> grown A fs (AList.update k (File c) fs)"
  unfolding grown_def
  by (auto simp: AList.update_keys AList.update_conv')

lemma grown_isdir: "grown A fs fs' \<Longrightarrow> isdir fs' q = isdir fs q"
  unfolding grown_def isdir_def by (metis node.distinct(1) option.inject)

lemma grown_present: "grown A fs fs' \<Longrightarrow> map_of fs q \<noteq> None \<Longrightarrow> map_of fs' q \<noteq> None"
  unfolding grown_def by (metis option.distinct(1))

lemma grown_same: "grown A fs fs' \<Longrightarrow> q \<notin> A \<Longrightarrow> map_of fs' q = map_of fs q"
  unfolding grown_def by blast

lemma grown_changed:
  "grown A fs fs' \<Longrightarrow> map_of fs' q \<noteq> map_of fs q \<Longrightarrow>
   q \<in> A \<and> map_of fs q \<noteq> Some Dir \<and> (\<exists>c. map_of fs' q = Some (File c))"
  unfolding grown_def by blast

lemma grown_children:
  assumes "grown A fs fs'"
  shows "\<exists>extra. children fs' q = children fs q @ extra \<and> (\<forall>n \<in> set extra. q @ [n] \<in> A)"
proof -
  from assms obtain new where new: "map fst fs' = map fst fs @ new" "set new \<subseteq> A"
    unfolding grown_def by blast
  let ?P = "\<lambda>k. k \<noteq> [] \<and> butlast k = q"
  have "children fs' q = children fs q @ map last (filter ?P new)"
    by (simp add: children_def new)
  moreover have "q @ [n] \<in> A" if "n \<in> set (map last (filter ?P new))" for n
  proof -
    from that obtain k where "k \<in> set new" "k \<noteq> []" "butlast k = q" "last k = n" by auto
    then have "k = q @ [n]" by (metis append_butlast_last_id)
    with \<open>k \<in> set new\<close> new(2) show ?thesis by blast
  qed
  ultimately show ?thesis by blast
qed

lemma grown_listdir:
  assumes "grown A fs fs'" and "listdir fs q = Inr cur"
  shows "\<exists>extra. listdir fs' q = Inr (cur @ extra) \<and> (\<forall>n \<in> set extra. q @ [n] \<in> A)"
proof -
  from assms(2) have d: "isdir fs q" and c: "cur = children fs q"
    by (auto simp: listdir_def isdir_def split: option.splits node.splits)
  from grown_isdir[OF assms(1)] d have "isdir fs' q" by simp
  then have "listdir fs' q = Inr (children fs' q)" by (simp add: listdir_def isdir_def)
  with grown_children[OF assms(1), of q] c show ?thesis by auto
qed

lemma grown_listdir_same:
  assumes "grown A fs fs'" and "\<forall>k \<in> A. k = [] \<or> butlast k \<noteq> q" and "q \<notin> A"
  shows "listdir fs' q = listdir fs q"
proof -
  from grown_children[OF assms(1), of q] obtain extra where
    e: "children fs' q = children fs q @ extra" "\<forall>n \<in> set extra. q @ [n] \<in> A" by blast
  have "extra = []"
  proof (cases extra)
    case (Cons n ns)
    with e(2) have "q @ [n] \<in> A" by simp
    with assms(2) show ?thesis by fastforce
  qed simp
  with e have ch: "children fs' q = children fs q" by simp
  from assms(1,3) have "map_of fs' q = map_of fs q" by (rule grown_same)
  then show ?thesis unfolding listdir_def ch by simp
qed

lemma new_name_aug: "\<exists>s. new_name d n = ''aug_'' @ s"
  by (simp add: new_name_def)

lemma loop_body_grown:
  assumes "n \<in> set images" and "aug_paths p images \<subseteq> A"
  shows "grown A (files v) (files (loop_body L p n d v))"
proof (cases rule: loop_body_cases[of L v p n d])
  case failed
  then show ?thesis by (simp add: grown_refl)
next
  case (saved c c')
  from assms have "p @ [new_name d n] \<in> A" by (auto simp: aug_paths_def)
  from grown_update[OF this saved(2)] saved(4) show ?thesis by simp
qed

lemma loop_body_listdir:
  assumes "listdir (files v) p = Inr cur"
  shows "listdir (files (loop_body L p n d v)) p = Inr cur
       \<or> (listdir (files (loop_body L p n d v)) p = Inr (cur @ [new_name d n])
           \<and> new_name d n \<notin> set cur)"
proof (cases rule: loop_body_cases[of L v p n d])
  case failed
  with assms show ?thesis by simp
next
  case (saved c c')
  from assms have d: "map_of (files v) p = Some Dir" and c: "cur = children (files v) p"
    by (auto simp: listdir_def split: option.splits node.splits)
  let ?k = "p @ [new_name d n]"
  have "map_of (AList.update ?k (File c') (files v)) p = Some Dir"
    using d by (simp add: AList.update_conv')
  then have "listdir (files (loop_body L p n d v)) p
      = Inr (children (AList.update ?k (File c') (files v)) p)"
    using saved(4) by (simp add: listdir_def)
  moreover have "map_of (files v) ?k = None \<Longrightarrow> new_name d n \<notin> set cur"
    by (simp add: c children_member map_of_eq_None_iff)
  ultimately show ?thesis
    by (auto simp: children_update c)
qed


section \<open>Properties of a finished loop\<close>

lemma pick_mem: "images \<noteq> [] \<Longrightarrow> images ! (k mod length images) \<in> set images"
  by simp

lemma augment_class_images_unfold:
  "listdir (files w) p = Inr images \<Longrightarrow>
   augment_class_images L rnd p t w =
     augment_loop L rnd p t images (w\<lparr>console := console w @ [Augmenting p (length images) t]\<rparr>)"
  by (simp add: augment_class_images_def)

lemma augment_loop_count:
  fixes w :: "'c world"
  assumes "augment_loop L rnd p t images w = Some (Inr w')"
    and "listdir (files w) p = Inr cur" and "int (length cur) \<le> t"
  shows "\<exists>cur'. listdir (files w') p = Inr cur' \<and> int (length cur') = t"
proof -
  let ?I = "\<lambda>v. \<exists>c. listdir (files v) p = Inr c \<and> int (length c) \<le> t"
  have "loop_post ?I p t images (Inr w')"
  proof (rule augment_loop_rule[OF assms(1)])
    show "?I w" using assms(2,3) by blast
  next
    fix v :: "'c world" and n c
    assume "listdir (files v) p = Inr c" "int (length c) < t"
    with loop_body_listdir[of v p c L n "rnd (draws v)"]
    show "?I (loop_body L p n (rnd (draws v)) v)" by auto
  qed
  then show ?thesis unfolding loop_post_def by auto
qed

lemma augment_loop_names:
  fixes w :: "'c world"
  assumes "augment_loop L rnd p t images w = Some (Inr w')"
    and "listdir (files w) p = Inr cur" and "listdir (files w') p = Inr final"
  shows "\<forall>n \<in> set final. n \<in> set cur \<or> (\<exists>d. \<exists>src \<in> set images. n = new_name d src)"
proof -
  let ?I = "\<lambda>v. \<exists>c. listdir (files v) p = Inr c
              \<and> (\<forall>n \<in> set c. n \<in> set cur \<or> (\<exists>d. \<exists>src \<in> set images. n = new_name d src))"
  have "loop_post ?I p t images (Inr w')"
  proof (rule augment_loop_rule[OF assms(1)])
    show "?I w" using assms(2) by blast
  next
    fix v :: "'c world" and n c
    assume I: "?I v" and c: "listdir (files v) p = Inr c" and ne: "images \<noteq> []"
      and n: "n = images ! (pick (rnd (draws v)) mod length images)"
    from ne n have mem: "n \<in> set images" by simp
    from I c have old: "\<forall>m \<in> set c. m \<in> set cur \<or> (\<exists>d. \<exists>src \<in> set images. m = new_name d src)"
      by simp
    from loop_body_listdir[OF c, of L n "rnd (draws v)"]
    show "?I (loop_body L p n (rnd (draws v)) v)"
    proof
      assume "listdir (files (loop_body L p n (rnd (draws v)) v)) p = Inr c"
      with old show ?thesis by blast
    next
      assume "listdir (files (loop_body L p n (rnd (draws v)) v)) p
                = Inr (c @ [new_name (rnd (draws v)) n]) \<and> new_name (rnd (draws v)) n \<notin> set c"
      then have l: "listdir (files (loop_body L p n (rnd (draws v)) v)) p
                = Inr (c @ [new_name (rnd (draws v)) n])" ..
      have "\<forall>m \<in> set (c @ [new_name (rnd (draws v)) n]).
              m \<in> set cur \<or> (\<exists>d. \<exists>src \<in> set images. m = new_name d src)"
        using old mem by auto
      with l show ?thesis by blast
    qed
  qed
  with assms(3) show ?thesis unfolding loop_post_def by auto
qed


lemma augment_loop_grown:
  fixes w :: "'c world"
  assumes "augment_loop L rnd p t images w = Some (Inr w')" and "aug_paths p images \<subseteq> A"
  shows "grown A (files w) (files w')"
proof -
  let ?I = "\<lambda>v. grown A (files w) (files v)"
  have "loop_post ?I p t images (Inr w')"
  proof (rule augment_loop_rule[OF assms(1)])
    show "?I w" by (rule grown_refl)
  next
    fix v :: "'c world" and n
    assume I: "?I v" and ne: "images \<noteq> []"
      and n: "n = images ! (pick (rnd (draws v)) mod length images)"
    from ne n have "n \<in> set images" by simp
    from grown_trans[OF I loop_body_grown[OF this assms(2)]]
    show "?I (loop_body L p n (rnd (draws v)) v)" .
  qed
  then show ?thesis unfolding loop_post_def by auto
qed

lemma aug_paths_area: "aug_paths (train_dir @ [cls]) images \<subseteq> aug_area train_dir"
  by (auto simp: aug_paths_def aug_area_def new_name_def)

lemma augment_class_images_post:
  fixes w :: "'c world"
  assumes "augment_class_images L rnd p t w = Some (Inr w')"
  shows "\<exists>images cur. listdir (files w) p = Inr images \<and> grown (aug_paths p images) (files w) (files w')
          \<and> listdir (files w') p = Inr cur \<and> t \<le> int (length cur)"
proof (cases "listdir (files w) p")
  case (Inl e)
  with assms show ?thesis by (simp add: augment_class_images_def)
next
  case (Inr images)
  let ?w = "w\<lparr>console := console w @ [Augmenting p (length images) t]\<rparr>"
  from assms Inr have run: "augment_loop L rnd p t images ?w = Some (Inr w')"
    by (simp add: augment_class_images_unfold)
  from augment_loop_grown[OF run subset_refl] have g: "grown (aug_paths p images) (files w) (files w')"
    by simp
  have "loop_post (\<lambda>v. True) p t images (Inr w')"
    by (rule augment_loop_rule[OF run]) simp_all
  then obtain cur where "listdir (files w') p = Inr cur" "t \<le> int (length cur)"
    unfolding loop_post_def by auto
  with Inr g show ?thesis by blast
qed

lemma balance_classes_post:
  fixes w :: "'c world"
  assumes "balance_classes L rnd train_dir t cs w = Some (Inr w')"
  shows "grown (aug_area train_dir) (files w) (files w')
       \<and> (\<forall>cls \<in> set cs. \<exists>cur. listdir (files w') (train_dir @ [cls]) = Inr cur \<and> t \<le> int (length cur))"
  using assms
proof (induction cs arbitrary: w)
  case Nil
  then show ?case by (simp add: grown_refl)
next
  case (Cons cls rest)
  from Cons.prems obtain cur where cur: "listdir (files w) (train_dir @ [cls]) = Inr cur"
    by (cases "listdir (files w) (train_dir @ [cls])") auto
  obtain w1 where w1: "balance_classes L rnd train_dir t rest w1 = Some (Inr w')"
      "grown (aug_area train_dir) (files w) (files w1)"
      "\<exists>c1. listdir (files w1) (train_dir @ [cls]) = Inr c1 \<and> t \<le> int (length c1)"
  proof (cases "int (length cur) < t")
    case False
    with Cons.prems cur have "balance_classes L rnd train_dir t rest w = Some (Inr w')" by simp
    moreover have "grown (aug_area train_dir) (files w) (files w)" by (rule grown_refl)
    moreover from cur False have "\<exists>c1. listdir (files w) (train_dir @ [cls]) = Inr c1 \<and> t \<le> int (length c1)"
      by auto
    ultimately show ?thesis using that by blast
  next
    case True
    with Cons.prems cur obtain w1 where
      a: "augment_class_images L rnd (train_dir @ [cls]) t w = Some (Inr w1)"
      and b: "balance_classes L rnd train_dir t rest w1 = Some (Inr w')"
      by (auto split: option.splits sum.splits)
    from augment_class_images_post[OF a] obtain images c1 where
      g: "grown (aug_paths (train_dir @ [cls]) images) (files w) (files w1)"
      and c1: "listdir (files w1) (train_dir @ [cls]) = Inr c1" "t \<le> int (length c1)"
      by blast
    from grown_mono[OF g aug_paths_area] have "grown (aug_area train_dir) (files w) (files w1)" .
    with b c1 show ?thesis using that by blast
  qed
  from Cons.IH[OF w1(1)] have
    g': "grown (aug_area train_dir) (files w1) (files w')"
    and rest: "\<forall>c \<in> set rest. \<exists>cur. listdir (files w') (train_dir @ [c]) = Inr cur \<and> t \<le> int (length cur)"
    by auto
  from w1(3) obtain c1 where c1: "listdir (files w1) (train_dir @ [cls]) = Inr c1" "t \<le> int (length c1)"
    by blast
  from grown_listdir[OF g' c1(1)] c1(2)
  have "\<exists>cur. listdir (files w') (train_dir @ [cls]) = Inr cur \<and> t \<le> int (length cur)"
    by auto
  with rest grown_trans[OF w1(2) g'] show ?case by simp
qed

section \<open>Counting\<close>

lemma count_loop_keys:
  assumes "count_loop fs base cs acc = Inr counts"
    and "sorted (map fst acc @ cs)" and "distinct (map fst acc)"
  shows "sorted (map fst counts) \<and> distinct (map fst counts)
       \<and> set (map fst counts) = set (map fst acc) \<union> set cs"
  using assms
proof (induction cs arbitrary: acc)
  case Nil
  then show ?case by simp
next
  case (Cons cls rest)
  from Cons.prems(1) obtain names where
    names: "listdir fs (base @ [cls]) = Inr names"
    and run: "count_loop fs base rest (AList.update cls (length (filter image_suffix names)) acc) = Inr counts"
    by (auto split: sum.splits)
  let ?acc = "AList.update cls (length (filter image_suffix names)) acc"
  have keys: "map fst ?acc = (if cls \<in> set (map fst acc) then map fst acc else map fst acc @ [cls])"
    by (rule AList.update_keys)
  have s: "sorted (map fst ?acc @ rest)"
    using Cons.prems(2) by (auto simp: keys sorted_append)
  have d: "distinct (map fst ?acc)"
    using Cons.prems(3) by (rule AList.distinct_update)
  from Cons.IH[OF run s d] show ?case by (auto simp: keys split: if_splits)
qed

lemma count_images_classes:
  assumes "fst (count_images_in_classes base w) = Inr counts"
  shows "\<exists>classes. list_classes (files w) base = Inr classes \<and> set (map fst counts) = set classes"
proof -
  from assms obtain classes where c: "list_classes (files w) base = Inr classes"
    by (cases "list_classes (files w) base") (auto simp: count_images_in_classes_def)
  with assms have run: "count_loop (files w) base classes [] = Inr counts"
    by (simp add: count_images_in_classes_def)
  have "sorted classes" using c by (auto simp: list_classes_def split: sum.splits)
  with count_loop_keys[OF run] c show ?thesis by simp
qed

lemma aug_area_length: "k \<in> aug_area tr \<Longrightarrow> length k = length tr + 2"
  by (auto simp: aug_area_def)

lemma aug_area_butlast: "k \<in> aug_area tr \<Longrightarrow> \<exists>cls. butlast k = tr @ [cls]"
  by (auto simp: aug_area_def butlast_append)

lemma grown_area_listdir:
  assumes "grown (aug_area tr) fs fs'" and "length q \<le> length tr + 1" and "\<forall>cls. q \<noteq> tr @ [cls]"
  shows "listdir fs' q = listdir fs q"
proof (rule grown_listdir_same[OF assms(1)])
  show "\<forall>k \<in> aug_area tr. k = [] \<or> butlast k \<noteq> q"
    using assms(3) aug_area_butlast by metis
  show "q \<notin> aug_area tr" using assms(2) aug_area_length by fastforce
qed

lemma grown_area_list_classes:
  assumes "grown (aug_area tr) fs fs'" and "length base \<le> length tr" and "\<forall>cls. base \<noteq> tr @ [cls]"
  shows "list_classes fs' base = list_classes fs base"
proof -
  from assms have "listdir fs' base = listdir fs base"
    by (intro grown_area_listdir) auto
  then show ?thesis by (simp add: list_classes_def grown_isdir[OF assms(1)] split: sum.splits)
qed

lemma count_loop_cong:
  assumes "\<And>cls. listdir fs' (base @ [cls]) = listdir fs (base @ [cls])"
  shows "count_loop fs' base cs acc = count_loop fs base cs acc"
  by (induction cs arbitrary: acc) (simp_all add: assms split: sum.splits)

lemma grown_area_counts:
  fixes w w' :: "'c world"
  assumes "grown (aug_area tr) (files w) (files w')" and "length other = length tr" and "other \<noteq> tr"
  shows "fst (count_images_in_classes other w') = fst (count_images_in_classes other w)"
proof -
  have lc: "list_classes (files w') other = list_classes (files w) other"
    using assms by (intro grown_area_list_classes) auto
  have "listdir (files w') (other @ [cls]) = listdir (files w) (other @ [cls])" for cls
    using assms by (intro grown_area_listdir) auto
  then have "count_loop (files w') other cs [] = count_loop (files w) other cs []" for cs
    by (rule count_loop_cong)
  with lc show ?thesis by (simp add: count_images_in_classes_def split: sum.splits)
qed

section \<open>Cleanup\<close>

lemma kept_delete:
  "m \<noteq> n \<Longrightarrow> kept L (AList.delete (cp @ [n]) fs) cp m = kept L fs cp m"
  by (simp add: kept_def image_verifies_def read_file_def)

lemma kept_filter:
  "Q (cp @ [m]) \<Longrightarrow> kept L (filter (\<lambda>kv. Q (fst kv)) fs) cp m = kept L fs cp m"
  by (simp add: kept_def image_verifies_def read_file_def map_of_filter_key)

lemma os_remove_InrD: "os_remove fs p = Inr fs' \<Longrightarrow> fs' = filter (\<lambda>kv. fst kv \<noteq> p) fs"
  by (auto simp: os_remove_def delete_as_filter split: option.splits node.splits)

lemma clean_files_step:
  assumes "clean_files L cp (n # rest) w = Inr w'"
  shows "(kept L (files w) cp n \<and> clean_files L cp rest w = Inr w')
       \<or> (\<not> kept L (files w) cp n \<and> (\<exists>w1. files w1 = filter (\<lambda>kv. fst kv \<noteq> cp @ [n]) (files w)
             \<and> clean_files L cp rest w1 = Inr w'))"
proof (cases "image_suffix n")
  case False
  with assms obtain fs' where r: "os_remove (files w) (cp @ [n]) = Inr fs'"
    and c: "clean_files L cp rest (w\<lparr>console := console w @ [DeletingNonImage (cp @ [n])], files := fs'\<rparr>) = Inr w'"
    by (auto simp: Let_def split: sum.splits)
  from os_remove_InrD[OF r] c False show ?thesis
    by (intro disjI2 conjI exI[of _ "w\<lparr>console := console w @ [DeletingNonImage (cp @ [n])], files := fs'\<rparr>"])
       (simp_all add: kept_def)
next
  case True
  show ?thesis
  proof (cases "image_verifies L (files w) (cp @ [n])")
    case v: True
    with True assms show ?thesis by (simp add: kept_def)
  next
    case v: False
    with True assms obtain fs' where r: "os_remove (files w) (cp @ [n]) = Inr fs'"
      and c: "clean_files L cp rest (w\<lparr>console := console w @ [CorruptedRemoved (cp @ [n])], files := fs'\<rparr>) = Inr w'"
      by (auto simp: Let_def split: sum.splits)
    from os_remove_InrD[OF r] c v show ?thesis
      by (intro disjI2 conjI exI[of _ "w\<lparr>console := console w @ [CorruptedRemoved (cp @ [n])], files := fs'\<rparr>"])
         (simp_all add: kept_def)
  qed
qed

lemma clean_files_files:
  fixes w :: "'c world"
  assumes "clean_files L cp names w = Inr w'"
  shows "files w' = filter (\<lambda>kv. \<not> (\<exists>n \<in> set names. fst kv = cp @ [n] \<and> \<not> kept L (files w) cp n)) (files w)"
  using assms
proof (induction names arbitrary: w)
  case Nil
  then show ?case by simp
next
  case (Cons n rest)
  from clean_files_step[OF Cons.prems] show ?case
  proof (elim disjE conjE exE)
    assume k: "kept L (files w) cp n" and c: "clean_files L cp rest w = Inr w'"
    have "(\<exists>m \<in> set (n # rest). k = cp @ [m] \<and> \<not> kept L (files w) cp m)
        \<longleftrightarrow> (\<exists>m \<in> set rest. k = cp @ [m] \<and> \<not> kept L (files w) cp m)" for k
      using k by auto
    with Cons.IH[OF c] show ?thesis by simp
  next
    fix w1 :: "'c world"
    assume k: "\<not> kept L (files w) cp n"
      and f: "files w1 = filter (\<lambda>kv. fst kv \<noteq> cp @ [n]) (files w)"
      and c: "clean_files L cp rest w1 = Inr w'"
    have f': "files w1 = AList.delete (cp @ [n]) (files w)" by (simp add: f delete_as_filter)
    have "files w' = filter (\<lambda>kv. \<not> (\<exists>m \<in> set rest. fst kv = cp @ [m] \<and> \<not> kept L (files w1) cp m)) (files w1)"
      by (rule Cons.IH[OF c])
    also have "\<dots> = filter (\<lambda>kv. fst kv \<noteq> cp @ [n] \<and> \<not> (\<exists>m \<in> set rest. fst kv = cp @ [m] \<and> \<not> kept L (files w1) cp m)) (files w)"
      by (simp add: f conj_commute)
    also have "\<dots> = filter (\<lambda>kv. \<not> (\<exists>m \<in> set (n # rest). fst kv = cp @ [m] \<and> \<not> kept L (files w) cp m)) (files w)"
    proof (rule filter_cong[OF refl])
      fix kv
      show "(fst kv \<noteq> cp @ [n] \<and> \<not> (\<exists>m \<in> set rest. fst kv = cp @ [m] \<and> \<not> kept L (files w1) cp m))
          = (\<not> (\<exists>m \<in> set (n # rest). fst kv = cp @ [m] \<and> \<not> kept L (files w) cp m))"
      proof (cases "fst kv = cp @ [n]")
        case True
        with k show ?thesis by auto
      next
        case False
        then have "\<And>m. fst kv = cp @ [m] \<Longrightarrow> kept L (files w1) cp m = kept L (files w) cp m"
          unfolding f' by (intro kept_delete) auto
        with False show ?thesis by auto
      qed
    qed
    finally show ?thesis .
  qed
qed


lemma listdir_InrD: "listdir fs p = Inr names \<Longrightarrow> isdir fs p \<and> names = children fs p"
  by (auto simp: listdir_def isdir_def split: option.splits node.splits)

lemma clean_classes_files:
  fixes w :: "'c world"
  assumes "clean_classes L base cs w = Inr w'"
  shows "files w' = filter (\<lambda>kv. \<not> (\<exists>cls \<in> set cs. \<exists>n. fst kv = base @ [cls, n]
                        \<and> \<not> kept L (files w) (base @ [cls]) n)) (files w)"
  using assms
proof (induction cs arbitrary: w)
  case Nil
  then show ?case by simp
next
  case (Cons cls rest)
  from Cons.prems obtain names w1 where
    names: "listdir (files w) (base @ [cls]) = Inr names"
    and c1: "clean_files L (base @ [cls]) names w = Inr w1"
    and c2: "clean_classes L base rest w1 = Inr w'"
    by (auto split: sum.splits)
  let ?Q = "\<lambda>k. \<not> (\<exists>n \<in> set names. k = (base @ [cls]) @ [n] \<and> \<not> kept L (files w) (base @ [cls]) n)"
  have f1: "files w1 = filter (\<lambda>kv. ?Q (fst kv)) (files w)"
    by (rule clean_files_files[OF c1])
  have names_eq: "names = children (files w) (base @ [cls])"
    using listdir_InrD[OF names] by simp
  have "files w' = filter (\<lambda>kv. \<not> (\<exists>c \<in> set rest. \<exists>n. fst kv = base @ [c, n]
                        \<and> \<not> kept L (files w1) (base @ [c]) n)) (files w1)"
    by (rule Cons.IH[OF c2])
  also have "\<dots> = filter (\<lambda>kv. ?Q (fst kv) \<and> \<not> (\<exists>c \<in> set rest. \<exists>n. fst kv = base @ [c, n]
                        \<and> \<not> kept L (files w1) (base @ [c]) n)) (files w)"
    unfolding f1 by (simp only: filter_filter)
  also have "\<dots> = filter (\<lambda>kv. \<not> (\<exists>c \<in> set (cls # rest). \<exists>n. fst kv = base @ [c, n]
                        \<and> \<not> kept L (files w) (base @ [c]) n)) (files w)"
  proof (rule filter_cong[OF refl])
    fix kv assume mem: "kv \<in> set (files w)"
    have q: "?Q (fst kv) \<longleftrightarrow> \<not> (\<exists>n. fst kv = base @ [cls, n] \<and> \<not> kept L (files w) (base @ [cls]) n)"
    proof -
      have "n \<in> set names" if "fst kv = base @ [cls, n]" for n
        using that mem unfolding names_eq children_member by force
      then show ?thesis by auto
    qed
    have k: "kept L (files w1) (base @ [c]) n = kept L (files w) (base @ [c]) n"
      if "?Q (fst kv)" "fst kv = base @ [c, n]" for c n
      unfolding f1 using that by (intro kept_filter) simp
    show "(?Q (fst kv) \<and> \<not> (\<exists>c \<in> set rest. \<exists>n. fst kv = base @ [c, n]
                        \<and> \<not> kept L (files w1) (base @ [c]) n))
       = (\<not> (\<exists>c \<in> set (cls # rest). \<exists>n. fst kv = base @ [c, n]
                        \<and> \<not> kept L (files w) (base @ [c]) n))"
    proof (cases "?Q (fst kv)")
      case True
      with q k[OF True] show ?thesis by auto
    next
      case False
      with q show ?thesis by auto
    qed
  qed
  finally show ?case .
qed

lemma cleanup_files:
  fixes w :: "'c world"
  assumes "remove_corrupted_and_non_images L base w = Inr w'"
    and "list_classes (files w) base = Inr classes"
  shows "files w' = filter (\<lambda>kv. \<not> (\<exists>cls \<in> set classes. \<exists>n. fst kv = base @ [cls, n]
                        \<and> \<not> kept L (files w) (base @ [cls]) n)) (files w)"
proof -
  let ?w0 = "w\<lparr>console := console w @ [Checking base]\<rparr>"
  from assms have "clean_classes L base classes ?w0 = Inr w'"
    by (simp add: remove_corrupted_and_non_images_def)
  from clean_classes_files[OF this] show ?thesis by simp
qed

lemma list_classes_InrD:
  "list_classes fs base = Inr classes \<Longrightarrow> cls \<in> set classes \<Longrightarrow> isdir fs (base @ [cls])"
  by (auto simp: list_classes_def split: sum.splits)

section \<open>How the loop can end\<close>

lemma loop_body_isdir: "isdir (files (loop_body L p n d v)) q = isdir (files v) q"
proof -
  have "grown (aug_paths p [n]) (files v) (files (loop_body L p n d v))"
    by (rule loop_body_grown[where images = "[n]"]) simp_all
  then show ?thesis by (rule grown_isdir)
qed

lemma isdir_listdir: "isdir fs p \<Longrightarrow> \<exists>cur. listdir fs p = Inr cur"
  by (simp add: isdir_def listdir_def)

lemma augment_loop_result:
  fixes w :: "'c world"
  assumes "augment_loop L rnd p t images w = Some r" and "isdir (files w) p"
  shows "(\<exists>w' cur. r = Inr w' \<and> listdir (files w') p = Inr cur \<and> t \<le> int (length cur))
       \<or> (r = Inl IndexError \<and> images = [])"
proof -
  let ?I = "\<lambda>v. isdir (files v) p"
  have "loop_post ?I p t images r"
    by (rule augment_loop_rule[OF assms(1)]) (simp_all add: assms(2) loop_body_isdir)
  then show ?thesis
    unfolding loop_post_def using isdir_listdir by fastforce
qed

section \<open>File names\<close>

lemma str_nat_len5:
  assumes "10000 \<le> n" and "n < 100000"
  shows "length (str_nat n) = 5"
proof -
  have a: "\<not> n < 10" "\<not> n div 10 < 10" "\<not> n div 10 div 10 < 10" "\<not> n div 10 div 10 div 10 < 10"
    "n div 10 div 10 div 10 div 10 < 10"
    using assms by simp_all
  show ?thesis
    by (simp add: str_nat.simps[of n] str_nat.simps[of "n div 10"] str_nat.simps[of "n div 10 div 10"]
        str_nat.simps[of "n div 10 div 10 div 10"] str_nat.simps[of "n div 10 div 10 div 10 div 10"] a)
qed

lemma digit_char_digit: "d < 10 \<Longrightarrow> is_digit (digit_char d)"
proof -
  assume "d < 10"
  then have "d \<in> {0, 1, 2, 3, 4, 5, 6, 7, 8, 9}" by auto
  then show ?thesis by (auto simp: digit_char_def is_digit_def)
qed

lemma str_nat_digits5:
  assumes "10000 \<le> n" and "n < 100000"
  shows "list_all is_digit (str_nat n)"
proof -
  have a: "\<not> n < 10" "\<not> n div 10 < 10" "\<not> n div 10 div 10 < 10" "\<not> n div 10 div 10 div 10 < 10"
    "n div 10 div 10 div 10 div 10 < 10"
    using assms by simp_all
  have s: "str_nat n = [digit_char (n div 10 div 10 div 10 div 10), digit_char (n div 10 div 10 div 10 mod 10),
       digit_char (n div 10 div 10 mod 10), digit_char (n div 10 mod 10), digit_char (n mod 10)]"
    by (simp add: str_nat.simps[of n] str_nat.simps[of "n div 10"] str_nat.simps[of "n div 10 div 10"]
        str_nat.simps[of "n div 10 div 10 div 10"] str_nat.simps[of "n div 10 div 10 div 10 div 10"] a)
  show ?thesis unfolding s by (simp add: digit_char_digit a(5))
qed

lemma randint_range: "10000 \<le> random_randint r 10000 99999 \<and> random_randint r 10000 99999 < 100000"
  by (simp add: random_randint_def) 

lemma length_new_name: "length (new_name d n) = length n + 10"
  using randint_range[of "suffix d"] by (simp add: new_name_def str_nat_len5)


lemma new_name_pattern: "aug_pattern (new_name d n) n"
  using randint_range[of "suffix d"]
  by (simp add: aug_pattern_def new_name_def str_nat_len5 str_nat_digits5)

section \<open>An iteration that adds a file\<close>

lemma endswith_append: "endswith s suf \<Longrightarrow> endswith (p @ s) suf"
  by (auto simp: endswith_def)

lemma new_name_jpg: "endswith (lower n) suf \<Longrightarrow> endswith (lower (new_name d n)) suf"
proof -
  assume a: "endswith (lower n) suf"
  have "lower (new_name d n) = lower (''aug_'' @ str_nat (random_randint (suffix d) 10000 99999) @ ''_'') @ lower n"
    by (simp add: new_name_def lower_def)
  with a show ?thesis by (simp only: endswith_append)
qed

lemma try_augment_ok:
  assumes "read_file fs (p @ [n]) = Inr x" and "open_rgb L x = Some img"
    and "augmentations L (seed d) img = Some img'" and "save L (new_name d n) img' = Some c'"
    and "map_of fs (p @ [new_name d n]) \<noteq> Some Dir" and "isdir fs p"
  shows "try_augment L fs p n d = Some (AList.update (p @ [new_name d n]) (File c') fs)"
  using assms by (simp add: try_augment_def write_file_def)

lemma loop_body_draws: "draws (loop_body L p n d v) = Suc (draws v)"
  by (cases rule: loop_body_cases[of L v p n d]) simp_all

lemma loop_body_valid:
  fixes v w :: "'c world"
  assumes l: "listdir (files v) p = Inr cur"
    and src: "src \<in> set images"
    and same: "\<And>n. n \<in> set images \<Longrightarrow> map_of (files v) (p @ [n]) = map_of (files w) (p @ [n])"
    and nodir: "\<And>n. n \<in> set cur \<Longrightarrow> map_of (files v) (p @ [n]) \<noteq> Some Dir"
    and valid: "\<And>n. n \<in> set images \<Longrightarrow>
        endswith (lower n) ''.jpg''
        \<and> (\<exists>x img. read_file (files w) (p @ [n]) = Inr x \<and> open_rgb L x = Some img)"
    and transforms: "\<And>s img. augmentations L s img \<noteq> None"
    and saves: "\<And>n img. endswith (lower n) ''.jpg'' \<Longrightarrow> save L n img \<noteq> None"
    and originals: "\<And>n orig e. n \<in> set images \<Longrightarrow> orig \<in> set images \<Longrightarrow> n \<noteq> new_name e orig"
  shows "draws (loop_body L p src d v) = Suc (draws v)
       \<and> console (loop_body L p src d v) = console v
       \<and> listdir (files (loop_body L p src d v)) p
           = Inr (if new_name d src \<in> set cur then cur else cur @ [new_name d src])
       \<and> (\<forall>n \<in> set images. map_of (files (loop_body L p src d v)) (p @ [n]) = map_of (files w) (p @ [n]))
       \<and> (\<forall>n \<in> set (cur @ [new_name d src]). map_of (files (loop_body L p src d v)) (p @ [n]) \<noteq> Some Dir)"
proof -
  let ?nn = "new_name d src"
  let ?k = "p @ [?nn]"
  from valid[OF src] obtain x img where rw: "read_file (files w) (p @ [src]) = Inr x"
    and o: "open_rgb L x = Some img" and j: "endswith (lower src) ''.jpg''" by auto
  from rw same[OF src] have r: "read_file (files v) (p @ [src]) = Inr x"
    by (simp add: read_file_def)
  from transforms[of "seed d" img] obtain img' where t: "augmentations L (seed d) img = Some img'"
    by auto
  from saves[OF new_name_jpg[OF j], of d img'] obtain c' where s: "save L ?nn img' = Some c'"
    by auto
  from listdir_InrD[OF l] have dir: "isdir (files v) p" and c: "cur = children (files v) p"
    by simp_all
  have mem: "?nn \<in> set cur \<longleftrightarrow> map_of (files v) ?k \<noteq> None"
    by (simp add: c children_member map_of_eq_None_iff)
  have nd: "map_of (files v) ?k \<noteq> Some Dir"
  proof (cases "?nn \<in> set cur")
    case True
    then show ?thesis by (rule nodir)
  next
    case False
    with mem show ?thesis by simp
  qed
  let ?fs = "AList.update ?k (File c') (files v)"
  from try_augment_ok[OF r o t s nd dir]
  have b: "loop_body L p src d v = v\<lparr>files := ?fs, draws := Suc (draws v)\<rparr>"
    by (simp add: loop_body_def)
  have "map_of ?fs p = Some Dir"
    using dir by (simp add: AList.update_conv' isdir_def)
  then have 3: "listdir ?fs p = Inr (if ?nn \<in> set cur then cur else cur @ [?nn])"
    using mem by (simp add: listdir_def children_update c)
  have fresh: "?nn \<noteq> n" if "n \<in> set images" for n
    using originals[OF that src, of d] by auto
  have 4: "map_of ?fs (p @ [n]) = map_of (files w) (p @ [n])" if "n \<in> set images" for n
    using fresh[OF that] same[OF that] by (simp add: AList.update_conv')
  have 5: "map_of ?fs (p @ [n]) \<noteq> Some Dir" if "n \<in> set (cur @ [?nn])" for n
  proof (cases "n = ?nn")
    case True
    then show ?thesis by (simp add: AList.update_conv')
  next
    case False
    with that have "n \<in> set cur" by simp
    from nodir[OF this] False show ?thesis by (simp add: AList.update_conv')
  qed
  from 3 4 5 show ?thesis unfolding b by simp
qed

lemma loop_body_elsewhere:
  "q \<noteq> p @ [new_name d n] \<Longrightarrow> map_of (files (loop_body L p n d v)) q = map_of (files v) q"
  by (cases rule: loop_body_cases[of L v p n d]) (simp_all add: AList.update_conv')

lemma augment_loop_partial:
  fixes w0 :: "'c world"
  assumes run: "augment_loop L rnd p t images w0 = Some (Inr w')"
    and l: "listdir (files w0) p = Inr images"
    and noaug: "\<And>n orig e. n \<in> set images \<Longrightarrow> orig \<in> set images \<Longrightarrow> n \<noteq> new_name e orig"
    and le: "int (length images) \<le> t"
  shows "\<exists>news. listdir (files w') p = Inr (images @ news) \<and> int (length (images @ news)) = t
           \<and> distinct news \<and> set news \<inter> set images = {}
           \<and> (\<forall>n \<in> set news. \<exists>orig \<in> set images. aug_pattern n orig)
           \<and> (\<forall>n \<in> set images. map_of (files w') (p @ [n]) = map_of (files w0) (p @ [n]))"
proof -
  let ?J = "\<lambda>(v::'c world) news. listdir (files v) p = Inr (images @ news)
           \<and> distinct news \<and> set news \<inter> set images = {}
           \<and> (\<forall>n \<in> set news. \<exists>orig \<in> set images. aug_pattern n orig)
           \<and> (\<forall>n \<in> set images. map_of (files v) (p @ [n]) = map_of (files w0) (p @ [n]))"
  let ?I = "\<lambda>v. \<exists>news. ?J v news \<and> int (length (images @ news)) \<le> t"
  have "loop_post ?I p t images (Inr w')"
  proof (rule augment_loop_rule[OF run])
    show "?I w0" using l le by (intro exI[of _ "[]"]) simp
  next
    fix v :: "'c world" and n cur
    assume I: "?I v" and cur: "listdir (files v) p = Inr cur" and lt: "int (length cur) < t"
      and ne: "images \<noteq> []" and n: "n = images ! (pick (rnd (draws v)) mod length images)"
    let ?d = "rnd (draws v)"
    let ?v' = "loop_body L p n ?d v"
    from ne n have mem: "n \<in> set images" by simp
    from I obtain news where J: "?J v news" by blast
    with cur have c: "cur = images @ news" by simp
    have orig: "map_of (files ?v') (p @ [m]) = map_of (files w0) (p @ [m])" if "m \<in> set images" for m
    proof -
      from noaug[OF that mem] have "m \<noteq> new_name ?d n" .
      then have "map_of (files ?v') (p @ [m]) = map_of (files v) (p @ [m])"
        by (intro loop_body_elsewhere) simp
      with J that show ?thesis by simp
    qed
    from loop_body_listdir[OF cur, of L n ?d] show "?I ?v'"
    proof
      assume "listdir (files ?v') p = Inr cur"
      with J orig lt c have "?J ?v' news \<and> int (length (images @ news)) \<le> t" by simp
      then show ?thesis by blast
    next
      assume a: "listdir (files ?v') p = Inr (cur @ [new_name ?d n]) \<and> new_name ?d n \<notin> set cur"
      let ?news = "news @ [new_name ?d n]"
      from a c have 1: "listdir (files ?v') p = Inr (images @ ?news)" by simp
      from a c J have 2: "distinct ?news" "set ?news \<inter> set images = {}" by auto
      from J mem new_name_pattern[of ?d n]
      have 3: "\<forall>k \<in> set ?news. \<exists>orig \<in> set images. aug_pattern k orig" by auto
      from lt c have 4: "int (length (images @ ?news)) \<le> t" by simp
      from 1 2 3 4 orig have "?J ?v' ?news \<and> int (length (images @ ?news)) \<le> t" by blast
      then show ?thesis by blast
    qed
  qed
  then obtain news cur where "?J w' news" "int (length (images @ news)) \<le> t"
    "listdir (files w') p = Inr cur" "t \<le> int (length cur)"
    unfolding loop_post_def by auto
  then have "?J w' news \<and> int (length (images @ news)) = t" by auto
  then show ?thesis by blast
qed

text \<open>A directory of three sound files: the first iteration adds a file; every later
  iteration that generates the same name again writes that file again and leaves the
  listing at four; the first iteration that generates another name adds the fifth file and
  the loop returns.\<close>

lemma repeated_name_return:
  fixes w :: "'c world"
  assumes listing: "listdir (files w) p = Inr [a, b, c]"
    and valid: "\<And>n. n \<in> set [a, b, c] \<Longrightarrow>
        endswith (lower n) ''.jpg''
        \<and> (\<exists>x img. read_file (files w) (p @ [n]) = Inr x \<and> open_rgb L x = Some img)"
    and originals: "\<And>n orig e. n \<in> set [a, b, c] \<Longrightarrow> orig \<in> set [a, b, c] \<Longrightarrow> n \<noteq> new_name e orig"
    and transforms: "\<And>s img. augmentations L s img \<noteq> None"
    and saves: "\<And>n img. endswith (lower n) ''.jpg'' \<Longrightarrow> save L n img \<noteq> None"
    and differs: "generated_name rnd [a, b, c] w k \<noteq> generated_name rnd [a, b, c] w 0"
    and first: "\<And>j. j < k \<Longrightarrow> generated_name rnd [a, b, c] w j = generated_name rnd [a, b, c] w 0"
  shows "\<exists>w'. augment_class_images L rnd p 5 w = Some (Inr w') \<and> draws w' = Suc (draws w + k)
            \<and> listdir (files w') p
                = Inr [a, b, c, generated_name rnd [a, b, c] w 0, generated_name rnd [a, b, c] w k]"
proof -
  let ?images = "[a, b, c]"
  let ?nm = "generated_name rnd ?images w"
  let ?w0 = "w\<lparr>console := console w @ [Augmenting p (length ?images) 5]\<rparr>"
  let ?src = "\<lambda>v::'c world. ?images ! (pick (rnd (draws v)) mod length ?images)"
  let ?next = "\<lambda>v::'c world. loop_body L p (?src v) (rnd (draws v)) v"
  define St where "St = (\<lambda>(v::'c world) cur j. draws v = draws w + j \<and> listdir (files v) p = Inr cur
      \<and> (\<forall>n \<in> set ?images. map_of (files v) (p @ [n]) = map_of (files w) (p @ [n]))
      \<and> (\<forall>n \<in> set cur. map_of (files v) (p @ [n]) \<noteq> Some Dir))"
  have St_listdir: "listdir (files v) p = Inr cur" if "St v cur j" for v cur j
    using that by (simp add: St_def)
  have St_draws: "draws v = draws w + j" if "St v cur j" for v cur j
    using that by (simp add: St_def)
  have src: "?src v \<in> set ?images" for v :: "'c world"
    by (rule nth_mem) simp
  have nm: "new_name (rnd (draws v)) (?src v) = ?nm j" if "draws v = draws w + j" for v :: "'c world" and j
    using that by (simp add: generated_name_def)
  have out: "?nm j \<notin> set ?images" for j
  proof
    assume a: "?nm j \<in> set ?images"
    let ?s = "?images ! (pick (rnd (draws w + j)) mod length ?images)"
    have "?s \<in> set ?images" by (rule nth_mem) simp
    from originals[OF a this, of "rnd (draws w + j)"]
    show False by (simp add: generated_name_def)
  qed
  have step: "St (?next v) (if ?nm j \<in> set cur then cur else cur @ [?nm j]) (Suc j)"
    if St: "St v cur j" for v :: "'c world" and cur j
  proof -
    from St have l: "listdir (files v) p = Inr cur" and d: "draws v = draws w + j"
      and same: "\<And>n. n \<in> set ?images \<Longrightarrow> map_of (files v) (p @ [n]) = map_of (files w) (p @ [n])"
      and nodir: "\<And>n. n \<in> set cur \<Longrightarrow> map_of (files v) (p @ [n]) \<noteq> Some Dir"
      by (auto simp: St_def)
    from loop_body_valid[OF l src same nodir valid transforms saves originals, of v "rnd (draws v)"]
    show ?thesis unfolding nm[OF d] St_def using d by auto
  qed
  have step_same: "St (?next v) cur (Suc j)" if "St v cur j" "?nm j \<in> set cur" for v :: "'c world" and cur j
    using step[OF that(1)] that(2) by (simp only: if_True)
  have step_new: "St (?next v) (cur @ [?nm j]) (Suc j)" if "St v cur j" "?nm j \<notin> set cur"
    for v :: "'c world" and cur j
    using step[OF that(1)] that(2) by (simp only: if_False)
  have nodir0: "map_of (files w) (p @ [n]) \<noteq> Some Dir" if "n \<in> set ?images" for n
    using valid[OF that] by (auto simp: read_file_def)
  have St0: "St ?w0 ?images 0" using listing nodir0 by (simp add: St_def)
  have k: "k \<noteq> 0" using differs by (cases k) simp_all
  \<comment> \<open>the first iteration\<close>
  have St1: "St (?next ?w0) (?images @ [?nm 0]) (Suc 0)"
    by (rule step_new[OF St0 out])
  have e1: "augment_loop L rnd p 5 ?images ?w0 = augment_loop L rnd p 5 ?images (?next ?w0)"
    by (rule augment_loop_step[OF St_listdir[OF St0]]) simp_all
  \<comment> \<open>the iterations that repeat the first name\<close>
  have rep: "Suc j \<le> k \<Longrightarrow> \<exists>v. St v (?images @ [?nm 0]) (Suc j)
      \<and> augment_loop L rnd p 5 ?images ?w0 = augment_loop L rnd p 5 ?images v" for j
  proof (induction j)
    case 0
    from St1 e1 show ?case by blast
  next
    case (Suc j)
    then obtain v where v: "St v (?images @ [?nm 0]) (Suc j)"
      and e: "augment_loop L rnd p 5 ?images ?w0 = augment_loop L rnd p 5 ?images v"
      by auto
    from Suc.prems have "Suc j < k" by simp
    from first[OF this] have "?nm (Suc j) \<in> set (?images @ [?nm 0])" by simp
    from step_same[OF v this] have v': "St (?next v) (?images @ [?nm 0]) (Suc (Suc j))" .
    have "augment_loop L rnd p 5 ?images v = augment_loop L rnd p 5 ?images (?next v)"
      by (rule augment_loop_step[OF St_listdir[OF v]]) simp_all
    with e v' show ?case by (intro exI[of _ "?next v"]) simp
  qed
  \<comment> \<open>the iteration that generates another name\<close>
  from k obtain k' where k': "k = Suc k'" by (cases k) auto
  from rep[of k'] k' obtain v where v: "St v (?images @ [?nm 0]) k"
    and e: "augment_loop L rnd p 5 ?images ?w0 = augment_loop L rnd p 5 ?images v"
    by auto
  from differs out[of k] have "?nm k \<notin> set (?images @ [?nm 0])" by simp
  from step_new[OF v this] have v': "St (?next v) ((?images @ [?nm 0]) @ [?nm k]) (Suc k)" .
  have "augment_class_images L rnd p 5 w = augment_loop L rnd p 5 ?images ?w0"
    using listing by (rule augment_class_images_unfold)
  also note e
  also have "augment_loop L rnd p 5 ?images v = augment_loop L rnd p 5 ?images (?next v)"
    by (rule augment_loop_step[OF St_listdir[OF v]]) simp_all
  also have "\<dots> = Some (Inr (?next v))"
    by (rule augment_loop_done[OF St_listdir[OF v']]) simp
  finally have "augment_class_images L rnd p 5 w = Some (Inr (?next v))" .
  with St_listdir[OF v'] St_draws[OF v'] show ?thesis by (intro exI[of _ "?next v"]) simp
qed

text \<open>While every iteration generates the name of the first, the listing never passes four
  entries, so the loop cannot have returned.\<close>

lemma returned_name_differs:
  fixes w :: "'c world"
  assumes listing: "listdir (files w) p = Inr [a, b, c]"
    and run: "augment_class_images L rnd p 5 w = Some (Inr w')"
  shows "\<exists>k. generated_name rnd [a, b, c] w k \<noteq> generated_name rnd [a, b, c] w 0"
proof (rule ccontr)
  let ?images = "[a, b, c]"
  let ?nm = "generated_name rnd ?images w"
  let ?w0 = "w\<lparr>console := console w @ [Augmenting p (length ?images) 5]\<rparr>"
  assume "\<not> (\<exists>k. ?nm k \<noteq> ?nm 0)"
  then have all: "?nm k = ?nm 0" for k by simp
  let ?I = "\<lambda>v::'c world. (\<exists>j. draws v = draws w + j)
      \<and> (listdir (files v) p = Inr ?images \<or> listdir (files v) p = Inr (?images @ [?nm 0]))"
  from run listing have r: "augment_loop L rnd p 5 ?images ?w0 = Some (Inr w')"
    by (simp add: augment_class_images_unfold)
  have "loop_post ?I p 5 ?images (Inr w')"
  proof (rule augment_loop_rule[OF r])
    show "?I ?w0" using listing by simp
  next
    fix v :: "'c world" and n cur
    assume I: "?I v" and cur: "listdir (files v) p = Inr cur"
      and n: "n = ?images ! (pick (rnd (draws v)) mod length ?images)"
    let ?v' = "loop_body L p n (rnd (draws v)) v"
    from I obtain j where j: "draws v = draws w + j" by blast
    then have d: "\<exists>j. draws ?v' = draws w + j"
      by (intro exI[of _ "Suc j"]) (simp add: loop_body_draws)
    from j n have nn: "new_name (rnd (draws v)) n = ?nm 0"
      using all[of j] by (simp add: generated_name_def)
    from I cur have c: "cur = ?images \<or> cur = ?images @ [?nm 0]" by auto
    from loop_body_listdir[OF cur, of L n "rnd (draws v)"] nn
    have "listdir (files ?v') p = Inr cur
       \<or> (listdir (files ?v') p = Inr (cur @ [?nm 0]) \<and> ?nm 0 \<notin> set cur)"
      by simp
    with c have "listdir (files ?v') p = Inr ?images \<or> listdir (files ?v') p = Inr (?images @ [?nm 0])"
      by auto
    with d show "?I ?v'" by simp
  qed
  then obtain cur where "listdir (files w') p = Inr cur" "5 \<le> int (length cur)"
    "listdir (files w') p = Inr ?images \<or> listdir (files w') p = Inr (?images @ [?nm 0])"
    unfolding loop_post_def by auto
  then show False by auto
qed


lemma endswith_tail: "endswith s (x # suf) \<Longrightarrow> endswith s suf"
proof -
  assume a: "endswith s (x # suf)"
  then have len: "Suc (length suf) \<le> length s"
    and d: "drop (length s - Suc (length suf)) s = x # suf"
    by (simp_all add: endswith_def)
  from len have "length s - length suf = Suc (length s - Suc (length suf))" by simp
  then have "drop (length s - length suf) s = drop 1 (drop (length s - Suc (length suf)) s)"
    by simp
  with d len show ?thesis by (simp add: endswith_def)
qed

lemma dot_jpg_image_suffix: "endswith (lower n) ''.jpg'' \<Longrightarrow> image_suffix n"
  by (simp add: image_suffix_def endswith_tail)

section \<open>What lies outside the training directory\<close>

lemma outside_update:
  "take (length dir) k = dir \<Longrightarrow> outside dir (AList.update k v fs) = outside dir fs"
  by (induction fs) (auto simp: outside_def)

lemma take_snoc_under: "take (length dir) p = dir \<Longrightarrow> take (length dir) (p @ [x]) = dir"
proof -
  assume a: "take (length dir) p = dir"
  then have "length (take (length dir) p) = length dir" by simp
  then have "length dir \<le> length p" by simp
  with a show ?thesis by simp
qed

lemma loop_body_outside:
  assumes "take (length dir) p = dir"
  shows "outside dir (files (loop_body L p n d v)) = outside dir (files v)"
proof (cases rule: loop_body_cases[of L v p n d])
  case failed
  then show ?thesis by simp
next
  case (saved c c')
  from assms have "take (length dir) (p @ [new_name d n]) = dir" by (rule take_snoc_under)
  from outside_update[OF this] saved(4) show ?thesis by simp
qed

lemma augment_loop_outside:
  fixes w :: "'c world"
  assumes "augment_loop L rnd p t images w = Some (Inr w')" and "take (length dir) p = dir"
  shows "outside dir (files w') = outside dir (files w)"
proof -
  have "loop_post (\<lambda>v. outside dir (files v) = outside dir (files w)) p t images (Inr w')"
    by (rule augment_loop_rule[OF assms(1)]) (simp_all add: loop_body_outside[OF assms(2)])
  then show ?thesis unfolding loop_post_def by auto
qed

lemma balance_classes_outside:
  fixes w :: "'c world"
  assumes "balance_classes L rnd train_dir t cs w = Some (Inr w')"
  shows "outside train_dir (files w') = outside train_dir (files w)"
  using assms
proof (induction cs arbitrary: w)
  case Nil
  then show ?case by simp
next
  case (Cons cls rest)
  from Cons.prems obtain cur where cur: "listdir (files w) (train_dir @ [cls]) = Inr cur"
    by (cases "listdir (files w) (train_dir @ [cls])") auto
  show ?case
  proof (cases "int (length cur) < t")
    case False
    with Cons.prems cur have "balance_classes L rnd train_dir t rest w = Some (Inr w')" by simp
    then show ?thesis by (rule Cons.IH)
  next
    case True
    with Cons.prems cur obtain w1 where
      a: "augment_class_images L rnd (train_dir @ [cls]) t w = Some (Inr w1)"
      and b: "balance_classes L rnd train_dir t rest w1 = Some (Inr w')"
      by (auto split: option.splits sum.splits)
    let ?w0 = "w\<lparr>console := console w @ [Augmenting (train_dir @ [cls]) (length cur) t]\<rparr>"
    from a cur have "augment_loop L rnd (train_dir @ [cls]) t cur ?w0 = Some (Inr w1)"
      by (simp add: augment_class_images_unfold)
    from augment_loop_outside[OF this, of train_dir]
    have "outside train_dir (files w1) = outside train_dir (files w)" by simp
    with Cons.IH[OF b] show ?thesis by simp
  qed
qed

lemma under_outside:
  assumes "length t \<le> length d" and "take (length t) d \<noteq> t"
  shows "under d (outside t fs) = under d fs"
proof -
  have "take (length t) k \<noteq> t" if "take (length d) k = d" for k
  proof -
    from assms(1) have "take (length t) k = take (length t) (take (length d) k)" by (simp add: min_def)
    with that assms(2) show ?thesis by simp
  qed
  then show ?thesis unfolding under_def outside_def filter_filter
    by (intro filter_cong) auto
qed

lemma outside_map_of:
  "take (length dir) p \<noteq> dir \<Longrightarrow> map_of (outside dir fs) p = map_of fs p"
  unfolding outside_def using map_of_filter_key[of "\<lambda>k. take (length dir) k \<noteq> dir" fs p] by simp


section \<open>The files step 5 can write\<close>

lemma listed_present: "listdir fs p = Inr cur \<Longrightarrow> n \<in> set cur \<Longrightarrow> map_of fs (p @ [n]) \<noteq> None"
  using listdir_InrD[of fs p cur] by (simp add: children_member map_of_eq_None_iff)

lemma aug_paths_other:
  assumes "c \<noteq> cls"
  shows "\<forall>k \<in> aug_paths (train_dir @ [cls]) images. k = [] \<or> butlast k \<noteq> train_dir @ [c]"
    and "train_dir @ [c] \<notin> aug_paths (train_dir @ [cls]) images"
  using assms by (auto simp: aug_paths_def butlast_append)

lemma balance_classes_from:
  fixes w :: "'c world"
  assumes "balance_classes L rnd train_dir t cs w = Some (Inr w')"
    and "\<And>cls cur n. cls \<in> set cs \<Longrightarrow> listdir (files w) (train_dir @ [cls]) = Inr cur
           \<Longrightarrow> int (length cur) < t \<Longrightarrow> n \<in> set cur \<Longrightarrow> map_of fs0 (train_dir @ [cls, n]) \<noteq> None"
  shows "grown (aug_targets train_dir fs0) (files w) (files w')"
  using assms
proof (induction cs arbitrary: w)
  case Nil
  then show ?case by (simp add: grown_refl)
next
  case (Cons cls rest)
  let ?T = "aug_targets train_dir fs0"
  from Cons.prems(1) obtain cur where cur: "listdir (files w) (train_dir @ [cls]) = Inr cur"
    by (cases "listdir (files w) (train_dir @ [cls])") auto
  show ?case
  proof (cases "int (length cur) < t")
    case False
    with Cons.prems(1) cur have "balance_classes L rnd train_dir t rest w = Some (Inr w')" by simp
    then show ?thesis
      by (rule Cons.IH) (rule Cons.prems(2), simp_all)
  next
    case True
    with Cons.prems(1) cur obtain w1 where
      a: "augment_class_images L rnd (train_dir @ [cls]) t w = Some (Inr w1)"
      and b: "balance_classes L rnd train_dir t rest w1 = Some (Inr w')"
      by (auto split: option.splits sum.splits)
    from augment_class_images_post[OF a] cur obtain cur1 where
      g: "grown (aug_paths (train_dir @ [cls]) cur) (files w) (files w1)"
      and cur1: "listdir (files w1) (train_dir @ [cls]) = Inr cur1" "t \<le> int (length cur1)"
      by auto
    have sub: "aug_paths (train_dir @ [cls]) cur \<subseteq> ?T"
    proof
      fix k assume "k \<in> aug_paths (train_dir @ [cls]) cur"
      then obtain d n where k: "k = (train_dir @ [cls]) @ [new_name d n]" and n: "n \<in> set cur"
        by (auto simp: aug_paths_def)
      from Cons.prems(2)[OF _ cur True n] have "map_of fs0 (train_dir @ [cls, n]) \<noteq> None" by simp
      with k show "k \<in> ?T" by (auto simp: aug_targets_def)
    qed
    have g': "grown ?T (files w1) (files w')"
    proof (rule Cons.IH[OF b])
      fix c cur' n
      assume c: "c \<in> set rest" and l: "listdir (files w1) (train_dir @ [c]) = Inr cur'"
        and lt: "int (length cur') < t" and n: "n \<in> set cur'"
      from l lt cur1 have ne: "c \<noteq> cls" by auto
      from grown_listdir_same[OF g aug_paths_other[OF ne]] l
      have "listdir (files w) (train_dir @ [c]) = Inr cur'" by simp
      from Cons.prems(2)[OF _ this lt n] c show "map_of fs0 (train_dir @ [c, n]) \<noteq> None" by simp
    qed
    from grown_trans[OF grown_mono[OF g sub] g'] show ?thesis .
  qed
qed

lemma balance_classes_tight:
  fixes w :: "'c world"
  assumes "balance_classes L rnd train_dir t cs w = Some (Inr w')"
  shows "grown (aug_targets train_dir (files w)) (files w) (files w')"
proof (rule balance_classes_from[OF assms])
  fix cls cur n
  assume "listdir (files w) (train_dir @ [cls]) = Inr cur" and "n \<in> set cur"
  from listed_present[OF this] show "map_of (files w) (train_dir @ [cls, n]) \<noteq> None" by simp
qed

section \<open>The example directory\<close>

lemma demo_listdir_cat: "listdir demo_fs [''d'', ''cat''] = Inr [''a.jpg'', ''notes.txt'', ''b.PNG'', ''c.png'']"
  by (simp add: listdir_def demo_fs_def children_def)

lemma demo_listdir_dog: "listdir demo_fs [''d'', ''dog''] = Inr []"
  by (simp add: listdir_def demo_fs_def children_def)

lemma image_suffix_demo [simp]:
  "image_suffix ''a.jpg''" "\<not> image_suffix ''notes.txt''" "image_suffix ''b.PNG''"
  "image_suffix ''c.png''" "image_suffix ''aug_10000_a.jpg''"
  by (simp_all add: image_suffix_def endswith_def lower_def lower_char_def)

lemma new_name_demo0: "new_name (demo_rnd 0) ''a.jpg'' = ''aug_10000_a.jpg''"
  by (simp add: new_name_def demo_rnd_def random_randint_def digit_char_def str_nat.simps)

lemma demo_run5:
  "augment_class_images demo_imaging demo_rnd [''d'', ''cat''] 5 demo_world = Some (Inr demo_world5)"
proof -
  let ?w = "demo_world\<lparr>console := console demo_world @ [Augmenting [''d'', ''cat''] 4 5]\<rparr>"
  have l0: "listdir (files ?w) [''d'', ''cat''] = Inr [''a.jpg'', ''notes.txt'', ''b.PNG'', ''c.png'']"
    by (simp add: demo_world_def demo_listdir_cat)
  have body: "loop_body demo_imaging [''d'', ''cat''] ''a.jpg'' (demo_rnd 0) ?w = demo_world5"
    by (simp add: loop_body_def try_augment_def read_file_def write_file_def isdir_def
        new_name_demo0 demo_world_def demo_world5_def demo_fs_def demo_imaging_def)
  have l1: "listdir (files demo_world5) [''d'', ''cat'']
      = Inr [''a.jpg'', ''notes.txt'', ''b.PNG'', ''c.png'', ''aug_10000_a.jpg'']"
    by (simp add: demo_world5_def listdir_def demo_fs_def children_def)
  have h: "listdir (files demo_world) [''d'', ''cat''] = Inr [''a.jpg'', ''notes.txt'', ''b.PNG'', ''c.png'']"
    by (simp add: demo_world_def demo_listdir_cat)
  have len: "length [''a.jpg'', ''notes.txt'', ''b.PNG'', ''c.png''] = 4" by simp
  have "augment_class_images demo_imaging demo_rnd [''d'', ''cat''] 5 demo_world
      = augment_loop demo_imaging demo_rnd [''d'', ''cat''] 5 [''a.jpg'', ''notes.txt'', ''b.PNG'', ''c.png''] ?w"
    by (simp only: augment_class_images_unfold[OF h] len)
  also have "\<dots> = augment_loop demo_imaging demo_rnd [''d'', ''cat''] 5
        [''a.jpg'', ''notes.txt'', ''b.PNG'', ''c.png''] demo_world5"
    by (subst augment_loop_step[OF l0]) (simp_all add: demo_world_def demo_rnd_def body[unfolded demo_world_def demo_rnd_def, simplified])
  also have "\<dots> = Some (Inr demo_world5)"
    by (rule augment_loop_done[OF l1]) simp
  finally show ?thesis .
qed

lemma demo_list_classes: "list_classes demo_fs [''d''] = Inr [''cat'', ''dog'']"
  by (simp add: list_classes_def listdir_def demo_fs_def children_def isdir_def)

lemma demo_counts: "count_images_in_classes [''d''] demo_world = (Inr [(''cat'', 3), (''dog'', 0)], demo_world)"
  by (simp add: count_images_in_classes_def demo_world_def demo_list_classes demo_listdir_cat demo_listdir_dog)

section \<open>The example dataset\<close>

lemmas dirs = DATASET_DIR_def TRAIN_DIR_def VAL_DIR_def TEST_DIR_def

lemma dataset_listdir:
  "listdir dataset_fs TRAIN_DIR = Inr [''cat'', ''dog'']"
  "listdir dataset_fs (TRAIN_DIR @ [''cat'']) = Inr [''a.jpg'']"
  "listdir dataset_fs (TRAIN_DIR @ [''dog'']) = Inr [''d1.png'', ''d2.png'']"
  "listdir dataset_fs VAL_DIR = Inr [''cat'']"
  "listdir dataset_fs (VAL_DIR @ [''cat'']) = Inr [''v.jpg'']"
  "listdir dataset_fs TEST_DIR = Inr [''cat'']"
  "listdir dataset_fs (TEST_DIR @ [''cat'']) = Inr [''t.jpeg'']"
  by (simp_all add: listdir_def dataset_fs_def children_def dirs)

lemma dataset_listdir2:
  "listdir (files dataset_world2) TRAIN_DIR = Inr [''cat'', ''dog'']"
  "listdir (files dataset_world2) (TRAIN_DIR @ [''cat'']) = Inr [''a.jpg'', ''aug_10000_a.jpg'']"
  "listdir (files dataset_world2) (TRAIN_DIR @ [''dog'']) = Inr [''d1.png'', ''d2.png'']"
  "listdir (files dataset_world2) VAL_DIR = Inr [''cat'']"
  "listdir (files dataset_world2) (VAL_DIR @ [''cat'']) = Inr [''v.jpg'']"
  "listdir (files dataset_world2) TEST_DIR = Inr [''cat'']"
  "listdir (files dataset_world2) (TEST_DIR @ [''cat'']) = Inr [''t.jpeg'']"
  by (simp_all add: listdir_def dataset_world2_def dataset_fs_def children_def dirs)

lemma dataset_isdir:
  "isdir dataset_fs (TRAIN_DIR @ [''cat''])" "isdir dataset_fs (TRAIN_DIR @ [''dog''])"
  "isdir dataset_fs (VAL_DIR @ [''cat''])" "isdir dataset_fs (TEST_DIR @ [''cat''])"
  "isdir (files dataset_world2) (TRAIN_DIR @ [''cat''])" "isdir (files dataset_world2) (TRAIN_DIR @ [''dog''])"
  "isdir (files dataset_world2) (VAL_DIR @ [''cat''])" "isdir (files dataset_world2) (TEST_DIR @ [''cat''])"
  by (simp_all add: isdir_def dataset_world2_def dataset_fs_def dirs)

lemma image_suffix_dataset [simp]:
  "image_suffix ''d1.png''" "image_suffix ''d2.png''" "image_suffix ''v.jpg''" "image_suffix ''t.jpeg''"
  by (simp_all add: image_suffix_def endswith_def lower_def lower_char_def)

lemma dataset_counts:
  "count_images_in_classes TRAIN_DIR dataset_world = (Inr [(''cat'', 1), (''dog'', 2)], dataset_world)"
  "count_images_in_classes VAL_DIR dataset_world = (Inr [(''cat'', 1)], dataset_world)"
  "count_images_in_classes TEST_DIR dataset_world = (Inr [(''cat'', 1)], dataset_world)"
  "count_images_in_classes VAL_DIR dataset_world2 = (Inr [(''cat'', 1)], dataset_world2)"
  "count_images_in_classes TEST_DIR dataset_world2 = (Inr [(''cat'', 1)], dataset_world2)"
  by (simp_all add: count_images_in_classes_def list_classes_def dataset_world_def
        dataset_listdir dataset_listdir2 dataset_isdir)

lemma dataset_list_classes2: "list_classes (files dataset_world2) TRAIN_DIR = Inr [''cat'', ''dog'']"
  by (simp add: list_classes_def dataset_listdir2 dataset_isdir)

lemma dataset_augment_cat:
  "augment_class_images demo_imaging demo_rnd (TRAIN_DIR @ [''cat'']) 2 dataset_world
     = Some (Inr dataset_world2)"
proof -
  let ?p = "TRAIN_DIR @ [''cat'']"
  let ?w = "dataset_world\<lparr>console := console dataset_world @ [Augmenting ?p 1 2]\<rparr>"
  have h: "listdir (files dataset_world) ?p = Inr [''a.jpg'']"
    by (simp add: dataset_world_def dataset_listdir)
  have len: "length [''a.jpg''] = 1" by simp
  have l0: "listdir (files ?w) ?p = Inr [''a.jpg'']"
    by (simp add: dataset_world_def dataset_listdir)
  have body: "loop_body demo_imaging ?p ''a.jpg'' (demo_rnd 0) ?w = dataset_world2"
    by (simp add: loop_body_def try_augment_def read_file_def write_file_def isdir_def
        new_name_demo0 dataset_world_def dataset_world2_def dataset_fs_def demo_imaging_def dirs)
  have "augment_class_images demo_imaging demo_rnd ?p 2 dataset_world
      = augment_loop demo_imaging demo_rnd ?p 2 [''a.jpg''] ?w"
    by (simp only: augment_class_images_unfold[OF h] len)
  also have "\<dots> = augment_loop demo_imaging demo_rnd ?p 2 [''a.jpg''] dataset_world2"
    by (subst augment_loop_step[OF l0])
       (simp_all add: dataset_world_def demo_rnd_def body[unfolded dataset_world_def demo_rnd_def, simplified])
  also have "\<dots> = Some (Inr dataset_world2)"
    by (rule augment_loop_done[OF dataset_listdir2(2)]) simp
  finally show ?thesis .
qed

lemma dataset_run:
  "balance_classes demo_imaging demo_rnd TRAIN_DIR 2 [''cat'', ''dog''] dataset_world
     = Some (Inr dataset_world2)"
proof -
  have h: "listdir (files dataset_world) (TRAIN_DIR @ [''cat'']) = Inr [''a.jpg'']"
    by (simp add: dataset_world_def dataset_listdir)
  have "balance_classes demo_imaging demo_rnd TRAIN_DIR 2 [''cat'', ''dog''] dataset_world
      = balance_classes demo_imaging demo_rnd TRAIN_DIR 2 [''dog''] dataset_world2"
    by (simp add: h dataset_augment_cat)
  also have "\<dots> = Some (Inr dataset_world2)"
    by (simp add: dataset_listdir2)
  finally show ?thesis .
qed

lemma dataset_under:
  "under VAL_DIR (files dataset_world) = [(VAL_DIR, Dir), (VAL_DIR @ [''cat''], Dir), (VAL_DIR @ [''cat'', ''v.jpg''], File 4)]"
  "under TEST_DIR (files dataset_world) = [(TEST_DIR, Dir), (TEST_DIR @ [''cat''], Dir), (TEST_DIR @ [''cat'', ''t.jpeg''], File 5)]"
  by (simp_all add: under_def dataset_world_def dataset_fs_def dirs)


section \<open>The cleanup examples\<close>

lemma demo_cleanup:
  "remove_corrupted_and_non_images demo_imaging [''d''] demo_world = Inr demo_cleaned"
proof -
  let ?w0 = "demo_world\<lparr>console := console demo_world @ [Checking [''d'']]\<rparr>"
  have lc: "list_classes (files ?w0) [''d''] = Inr [''cat'', ''dog'']"
    by (simp add: demo_world_def demo_list_classes)
  have l1: "listdir (files ?w0) [''d'', ''cat''] = Inr [''a.jpg'', ''notes.txt'', ''b.PNG'', ''c.png'']"
    by (simp add: demo_world_def demo_listdir_cat)
  have cf: "clean_files demo_imaging [''d'', ''cat''] [''a.jpg'', ''notes.txt'', ''b.PNG'', ''c.png''] ?w0
      = Inr demo_cleaned"
    by (simp add: Let_def image_verifies_def read_file_def os_remove_def demo_world_def
        demo_fs_def demo_imaging_def demo_cleaned_def AList.delete_eq)
  have l2: "listdir (files demo_cleaned) [''d'', ''dog''] = Inr []"
    by (simp add: listdir_def children_def demo_cleaned_def)
  have "remove_corrupted_and_non_images demo_imaging [''d''] demo_world
      = clean_classes demo_imaging [''d''] [''cat'', ''dog''] ?w0"
    unfolding remove_corrupted_and_non_images_def Let_def lc by simp
  also have "\<dots> = clean_classes demo_imaging [''d''] [''dog''] demo_cleaned"
    using l1 cf by simp
  also have "\<dots> = Inr demo_cleaned"
    using l2 by simp
  finally show ?thesis .
qed


lemma demo_cleaned_listing:
  "list_classes (files demo_cleaned) [''d''] = Inr [''cat'', ''dog'']"
  "listdir (files demo_cleaned) ([''d''] @ [''cat'']) = Inr [''a.jpg'', ''c.png'']"
  by (simp_all add: list_classes_def listdir_def children_def isdir_def demo_cleaned_def)

lemma nodot_name: "image_suffix ''notes_png''" "\<not> spec_accepted_extension ''notes_png''"
  by (simp_all add: image_suffix_def spec_accepted_extension_def endswith_def lower_def lower_char_def)

lemma nodot_listing:
  "list_classes (files nodot_world) [''d''] = Inr [''cat'']"
  "listdir (files nodot_world) [''d'', ''cat''] = Inr [''notes_png'']"
  "read_file (files nodot_world) [''d'', ''cat'', ''notes_png''] = Inr 1"
  by (simp_all add: list_classes_def listdir_def children_def isdir_def read_file_def nodot_world_def)

lemma demo_failed_attempt:
  "try_augment demo_imaging (files demo_world) [''d'', ''cat''] ''notes.txt'' (demo_rnd 0) = None"
  by (simp add: try_augment_def read_file_def demo_world_def demo_fs_def demo_imaging_def
      new_name_def image_suffix_def endswith_def lower_def lower_char_def demo_rnd_def
      random_randint_def str_nat.simps digit_char_def)

lemma single_listing: "listdir (files single_world) [''d'', ''cat''] = Inr [''a.jpg'']"
  by (simp add: listdir_def children_def single_world_def)

section \<open>The example with three files\<close>

lemma three_listing: "listdir (files three_world) [''d'', ''cat''] = Inr [''a.jpg'', ''b.jpg'', ''c.jpg'']"
  by (simp add: listdir_def children_def three_world_def three_fs_def)

lemma three_valid:
  assumes "n \<in> set [''a.jpg'', ''b.jpg'', ''c.jpg'']"
  shows "endswith (lower n) ''.jpg''
        \<and> (\<exists>x img. read_file (files three_world) ([''d'', ''cat''] @ [n]) = Inr x \<and> open_rgb demo_imaging x = Some img)"
proof -
  from assms have "n = ''a.jpg'' \<or> n = ''b.jpg'' \<or> n = ''c.jpg''" by simp
  then show ?thesis
    by (elim disjE)
       (simp_all add: endswith_def lower_def lower_char_def read_file_def three_world_def three_fs_def
          demo_imaging_def)
qed

lemma three_originals:
  assumes "n \<in> set [''a.jpg'', ''b.jpg'', ''c.jpg'']"
  shows "n \<noteq> new_name e orig"
proof
  assume "n = new_name e orig"
  with new_name_pattern[of e orig] have "aug_pattern n orig" by simp
  with assms show False by (auto simp: aug_pattern_def)
qed

lemma repeat_names:
  "generated_name repeat_rnd [''a.jpg'', ''b.jpg'', ''c.jpg''] three_world 0 = ''aug_10000_a.jpg''"
  "generated_name repeat_rnd [''a.jpg'', ''b.jpg'', ''c.jpg''] three_world (Suc 0) = ''aug_10000_a.jpg''"
  "generated_name repeat_rnd [''a.jpg'', ''b.jpg'', ''c.jpg''] three_world 2 = ''aug_10001_a.jpg''"
  by (simp_all add: generated_name_def three_world_def repeat_rnd_def new_name_def random_randint_def
        str_nat.simps digit_char_def)

section \<open>The example with a name clash\<close>

lemma clash_images: "[''a.jpg'', ''b.jpg'', ''aug_10000_a.jpg''] \<noteq> []"
  "length [''a.jpg'', ''b.jpg'', ''aug_10000_a.jpg''] = 3"
  by simp_all

lemma clash_listing:
  "listdir (files clash_world) [''d'', ''cat''] = Inr [''a.jpg'', ''b.jpg'', ''aug_10000_a.jpg'']"
  "listdir (files clash_world1) [''d'', ''cat''] = Inr [''a.jpg'', ''b.jpg'', ''aug_10000_a.jpg'']"
  "listdir (files clash_world2) [''d'', ''cat'']
     = Inr [''a.jpg'', ''b.jpg'', ''aug_10000_a.jpg'', ''aug_10001_b.jpg'']"
  "listdir (files clash_world3) [''d'', ''cat'']
     = Inr [''a.jpg'', ''b.jpg'', ''aug_10000_a.jpg'', ''aug_10001_b.jpg'', ''aug_10002_aug_10000_a.jpg'']"
  by (simp_all add: listdir_def children_def clash_world_def clash_world1_def clash_world2_def
      clash_world3_def)

lemma clash_suffix [simp]:
  "image_suffix ''aug_10001_b.jpg''" "image_suffix ''aug_10002_aug_10000_a.jpg''"
  by (simp_all add: image_suffix_def endswith_def lower_def lower_char_def)

lemma clash_bodies:
  "loop_body demo_imaging [''d'', ''cat''] ''a.jpg'' (demo_rnd 0)
     (clash_world\<lparr>console := [Augmenting [''d'', ''cat''] 3 5]\<rparr>) = clash_world1"
  "loop_body demo_imaging [''d'', ''cat''] ''b.jpg'' (demo_rnd 1) clash_world1 = clash_world2"
  "loop_body demo_imaging [''d'', ''cat''] ''aug_10000_a.jpg'' (demo_rnd 2) clash_world2 = clash_world3"
  by (simp_all add: loop_body_def try_augment_def read_file_def write_file_def isdir_def
      demo_rnd_def new_name_def random_randint_def str_nat.simps digit_char_def
      clash_world_def clash_world1_def clash_world2_def clash_world3_def demo_imaging_def)

lemma clash_run:
  "augment_class_images demo_imaging demo_rnd [''d'', ''cat''] 5 clash_world = Some (Inr clash_world3)"
proof -
  let ?images = "[''a.jpg'', ''b.jpg'', ''aug_10000_a.jpg'']"
  let ?w0 = "clash_world\<lparr>console := [Augmenting [''d'', ''cat''] 3 5]\<rparr>"
  have e0: "clash_world\<lparr>console := console clash_world @ [Augmenting [''d'', ''cat''] (length ?images) 5]\<rparr> = ?w0"
    by (simp add: clash_world_def)
  have l0: "listdir (files ?w0) [''d'', ''cat''] = Inr ?images"
    using clash_listing(1) by simp
  have d: "draws ?w0 = 0" "draws clash_world1 = 1" "draws clash_world2 = 2"
    by (simp_all add: clash_world_def clash_world1_def clash_world2_def)
  have pk: "?images ! (pick (demo_rnd 0) mod 3) = ''a.jpg''"
    "?images ! (pick (demo_rnd 1) mod 3) = ''b.jpg''"
    "?images ! (pick (demo_rnd 2) mod 3) = ''aug_10000_a.jpg''"
    by (simp_all add: demo_rnd_def)
  have "augment_class_images demo_imaging demo_rnd [''d'', ''cat''] 5 clash_world
      = augment_loop demo_imaging demo_rnd [''d'', ''cat''] 5 ?images ?w0"
    by (simp only: augment_class_images_unfold[OF clash_listing(1)] e0)
  also have "\<dots> = augment_loop demo_imaging demo_rnd [''d'', ''cat''] 5 ?images clash_world1"
    by (subst augment_loop_step[OF l0]) (simp_all only: d clash_images(2) pk clash_bodies, simp_all)
  also have "\<dots> = augment_loop demo_imaging demo_rnd [''d'', ''cat''] 5 ?images clash_world2"
    by (subst augment_loop_step[OF clash_listing(2)]) (simp_all only: d clash_images(2) pk clash_bodies, simp_all)
  also have "\<dots> = augment_loop demo_imaging demo_rnd [''d'', ''cat''] 5 ?images clash_world3"
    by (subst augment_loop_step[OF clash_listing(3)]) (simp_all only: d clash_images(2) pk clash_bodies, simp_all)
  also have "\<dots> = Some (Inr clash_world3)"
    by (rule augment_loop_done[OF clash_listing(4)]) simp
  finally show ?thesis .
qed


lemma clash_kept:
  "kept demo_imaging (files clash_world) [''d'', ''cat''] ''a.jpg''"
  "kept demo_imaging (files clash_world) [''d'', ''cat''] ''b.jpg''"
  "kept demo_imaging (files clash_world) [''d'', ''cat''] ''aug_10000_a.jpg''"
  by (simp_all add: kept_def image_suffix_def endswith_def lower_def lower_char_def
        image_verifies_def read_file_def clash_world_def demo_imaging_def)

lemma clash_counts: "count_images_in_classes [''d''] clash_world = (Inr [(''cat'', 3)], clash_world)"
proof -
  have "list_classes (files clash_world) [''d''] = Inr [''cat'']"
    by (simp add: list_classes_def listdir_def children_def isdir_def clash_world_def)
  moreover have "listdir (files clash_world) ([''d''] @ [''cat'']) = Inr [''a.jpg'', ''b.jpg'', ''aug_10000_a.jpg'']"
    using clash_listing(1) by simp
  moreover have "image_suffix ''b.jpg''"
    by (simp add: image_suffix_def endswith_def lower_def lower_char_def)
  ultimately show ?thesis by (simp add: count_images_in_classes_def)
qed

lemma clash_balance:
  "balance_classes demo_imaging demo_rnd [''d''] 5 [''cat''] clash_world = Some (Inr clash_world3)"
proof -
  have l: "listdir (files clash_world) ([''d''] @ [''cat'']) = Inr [''a.jpg'', ''b.jpg'', ''aug_10000_a.jpg'']"
    using clash_listing(1) by simp
  have r: "augment_class_images demo_imaging demo_rnd ([''d''] @ [''cat'']) 5 clash_world = Some (Inr clash_world3)"
    using clash_run by simp
  show ?thesis by (simp only: balance_classes.simps l r) simp
qed


section \<open>The claims\<close>

text \<open>
  C1, as the code has it. When the cleanup pass over a split directory has returned, the
  class directories are the ones it started with, and the listing of each is the old
  listing without the names that fail one of the two tests of the loop body: every name
  that remains ends, in lower case, with \<^verbatim>\<open>jpg\<close>, \<^verbatim>\<open>jpeg\<close> or \<^verbatim>\<open>png\<close> (no dot is
  asked for) and names a file whose content passes verification; every other entry is gone.
\<close>

theorem cleanup_keeps_exactly_valid:
  fixes w :: "'c world"
  assumes "remove_corrupted_and_non_images L base_path w = Inr w'"
    and "list_classes (files w) base_path = Inr classes"
    and "cls \<in> set classes"
    and "listdir (files w) (base_path @ [cls]) = Inr names"
  shows "list_classes (files w') base_path = Inr classes
       \<and> (\<exists>remaining. listdir (files w') (base_path @ [cls]) = Inr remaining
             \<and> remaining = filter (\<lambda>n. image_suffix n
                                   \<and> image_verifies L (files w) (base_path @ [cls, n])) names
             \<and> (\<forall>n \<in> set remaining. image_suffix n
                   \<and> (\<exists>c. read_file (files w') (base_path @ [cls, n]) = Inr c \<and> verify L c)))"
proof -
  let ?D = "\<lambda>k. \<exists>c \<in> set classes. \<exists>n. k = base_path @ [c, n] \<and> \<not> kept L (files w) (base_path @ [c]) n"
  have f: "files w' = filter (\<lambda>kv. \<not> ?D (fst kv)) (files w)"
    by (rule cleanup_files[OF assms(1,2)])
  have short: "\<not> ?D k" if "length k \<le> length base_path + 1" for k
    using that by auto
  have m: "map_of (files w') k = (if \<not> ?D k then map_of (files w) k else None)" for k
    unfolding f by (rule map_of_filter_key)
  have ch: "children (files w') q = filter (\<lambda>n. \<not> ?D (q @ [n])) (children (files w) q)" for q
    unfolding f by (rule children_filter_key)
  have 1: "list_classes (files w') base_path = Inr classes"
  proof -
    have c: "children (files w') base_path = children (files w) base_path"
      using short by (simp add: ch)
    have b: "map_of (files w') base_path = map_of (files w) base_path"
      using short[of base_path] by (simp add: m)
    have i: "isdir (files w') (base_path @ [d]) = isdir (files w) (base_path @ [d])" for d
      using short[of "base_path @ [d]"] by (simp add: m isdir_def)
    have "list_classes (files w') base_path = list_classes (files w) base_path"
      unfolding list_classes_def listdir_def c b i by (rule refl)
    with assms(2) show ?thesis by simp
  qed
  have D: "?D (base_path @ [cls, n]) \<longleftrightarrow> \<not> kept L (files w) (base_path @ [cls]) n" for n
    using assms(3) by auto
  have 2: "listdir (files w') (base_path @ [cls])
           = Inr (filter (\<lambda>n. image_suffix n \<and> image_verifies L (files w) (base_path @ [cls, n])) names)"
  proof -
    from listdir_InrD[OF assms(4)] have d: "isdir (files w) (base_path @ [cls])"
      and n: "names = children (files w) (base_path @ [cls])" by simp_all
    from d short[of "base_path @ [cls]"] have "map_of (files w') (base_path @ [cls]) = Some Dir"
      by (simp add: m isdir_def)
    then have "listdir (files w') (base_path @ [cls]) = Inr (children (files w') (base_path @ [cls]))"
      by (simp add: listdir_def)
    also have "children (files w') (base_path @ [cls])
        = filter (\<lambda>n. kept L (files w) (base_path @ [cls]) n) names"
      unfolding ch n using D by simp
    finally show ?thesis by (simp add: kept_def)
  qed
  have 3: "image_suffix n \<and> (\<exists>c. read_file (files w') (base_path @ [cls, n]) = Inr c \<and> verify L c)"
    if "image_suffix n" "image_verifies L (files w) (base_path @ [cls, n])" for n
  proof -
    from that have "kept L (files w) (base_path @ [cls]) n" by (simp add: kept_def)
    with D have "\<not> ?D (base_path @ [cls, n])" by blast
    then have "map_of (files w') (base_path @ [cls, n]) = map_of (files w) (base_path @ [cls, n])"
      by (simp add: m)
    then have "read_file (files w') (base_path @ [cls, n]) = read_file (files w) (base_path @ [cls, n])"
      by (simp add: read_file_def)
    with that show ?thesis
      by (auto simp: image_verifies_def split: sum.splits)
  qed
  from 2 3 have "\<exists>remaining. listdir (files w') (base_path @ [cls]) = Inr remaining
             \<and> remaining = filter (\<lambda>n. image_suffix n
                                   \<and> image_verifies L (files w) (base_path @ [cls, n])) names
             \<and> (\<forall>n \<in> set remaining. image_suffix n
                   \<and> (\<exists>c. read_file (files w') (base_path @ [cls, n]) = Inr c \<and> verify L c))"
    by simp
  with 1 show ?thesis by blast
qed

theorem cleanup_keeps_exactly_valid_witness:
  "remove_corrupted_and_non_images demo_imaging [''d''] demo_world = Inr demo_cleaned
   \<and> list_classes (files demo_world) [''d''] = Inr [''cat'', ''dog'']
   \<and> ''cat'' \<in> set [''cat'', ''dog'']
   \<and> listdir (files demo_world) ([''d''] @ [''cat'']) = Inr [''a.jpg'', ''notes.txt'', ''b.PNG'', ''c.png'']
   \<and> list_classes (files demo_cleaned) [''d''] = Inr [''cat'', ''dog'']
   \<and> (\<exists>remaining. listdir (files demo_cleaned) ([''d''] @ [''cat'']) = Inr remaining
         \<and> remaining = filter (\<lambda>n. image_suffix n
                \<and> image_verifies demo_imaging (files demo_world) ([''d''] @ [''cat'', n]))
              [''a.jpg'', ''notes.txt'', ''b.PNG'', ''c.png'']
         \<and> (\<forall>n \<in> set remaining. image_suffix n
               \<and> (\<exists>c. read_file (files demo_cleaned) ([''d''] @ [''cat'', n]) = Inr c
                       \<and> verify demo_imaging c)))
   \<and> listdir (files demo_cleaned) ([''d''] @ [''cat'']) = Inr [''a.jpg'', ''c.png'']"
proof -
  have h2: "list_classes (files demo_world) [''d''] = Inr [''cat'', ''dog'']"
    by (simp add: demo_world_def demo_list_classes)
  have h3: "''cat'' \<in> set [''cat'', ''dog'']" by simp
  have h4: "listdir (files demo_world) ([''d''] @ [''cat''])
      = Inr [''a.jpg'', ''notes.txt'', ''b.PNG'', ''c.png'']"
    by (simp add: demo_world_def demo_listdir_cat)
  from cleanup_keeps_exactly_valid[OF demo_cleanup h2 h3 h4] demo_cleanup h2 h3 h4
    demo_cleaned_listing(2)
  show ?thesis by blast
qed

text \<open>The claim with the dotted extensions fails: a file named \<^verbatim>\<open>notes_png\<close> with sound
  content passes both tests of the loop body and stays, though its name has none of the
  extensions \<^verbatim>\<open>.jpg\<close>, \<^verbatim>\<open>.jpeg\<close>, \<^verbatim>\<open>.png\<close>.\<close>

theorem cleanup_extension_counterexample:
  "remove_corrupted_and_non_images demo_imaging [''d''] nodot_world
     = Inr (nodot_world\<lparr>console := [Checking [''d'']]\<rparr>)
   \<and> listdir (files nodot_world) [''d'', ''cat''] = Inr [''notes_png'']
   \<and> read_file (files nodot_world) [''d'', ''cat'', ''notes_png''] = Inr 1
   \<and> verify demo_imaging 1
   \<and> \<not> spec_accepted_extension ''notes_png''"
proof -
  let ?w0 = "nodot_world\<lparr>console := console nodot_world @ [Checking [''d'']]\<rparr>"
  have c: "console nodot_world = []" by (simp add: nodot_world_def)
  have "remove_corrupted_and_non_images demo_imaging [''d''] nodot_world
      = clean_classes demo_imaging [''d''] [''cat''] ?w0"
    by (simp add: remove_corrupted_and_non_images_def Let_def nodot_listing)
  also have "\<dots> = Inr ?w0"
    by (simp add: nodot_listing nodot_name image_verifies_def demo_imaging_def)
  finally have "remove_corrupted_and_non_images demo_imaging [''d''] nodot_world
     = Inr (nodot_world\<lparr>console := [Checking [''d'']]\<rparr>)"
    by (simp add: c)
  then show ?thesis
    by (simp add: nodot_listing nodot_name demo_imaging_def)
qed

text \<open>
  C2, as the code has it. The listing \<open>images\<close> is read once, before the loop; each
  iteration draws its source from \<open>images\<close>, whatever the directory lists by then. When
  the call has returned, every name in the directory is a name of the first listing or
  \<^verbatim>\<open>aug_<number>_<name>\<close> for a name of the first listing: a file made in an earlier
  iteration of the same call is never the source of a later one.
\<close>

theorem sources_from_initial_listing:
  fixes w :: "'c world"
  assumes "listdir (files w) class_path = Inr images"
  shows "augment_class_images L rnd class_path target_count w
           = augment_loop L rnd class_path target_count images
               (w\<lparr>console := console w @ [Augmenting class_path (length images) target_count]\<rparr>)
       \<and> (\<forall>(v::'c world) cur. listdir (files v) class_path = Inr cur \<and> int (length cur) < target_count
              \<and> images \<noteq> [] \<longrightarrow>
            augment_loop L rnd class_path target_count images v
              = augment_loop L rnd class_path target_count images
                  (loop_body L class_path (images ! (pick (rnd (draws v)) mod length images))
                     (rnd (draws v)) v))
       \<and> (\<forall>w' final. augment_class_images L rnd class_path target_count w = Some (Inr w')
              \<and> listdir (files w') class_path = Inr final \<longrightarrow>
            (\<forall>n \<in> set final. n \<in> set images \<or> (\<exists>d. \<exists>src \<in> set images. n = new_name d src)))"
proof (intro conjI allI impI)
  show "augment_class_images L rnd class_path target_count w
           = augment_loop L rnd class_path target_count images
               (w\<lparr>console := console w @ [Augmenting class_path (length images) target_count]\<rparr>)"
    using assms by (rule augment_class_images_unfold)
next
  fix v :: "'c world" and cur
  assume "listdir (files v) class_path = Inr cur \<and> int (length cur) < target_count \<and> images \<noteq> []"
  then show "augment_loop L rnd class_path target_count images v
              = augment_loop L rnd class_path target_count images
                  (loop_body L class_path (images ! (pick (rnd (draws v)) mod length images))
                     (rnd (draws v)) v)"
    by (intro augment_loop_step) auto
next
  fix w' final
  let ?w = "w\<lparr>console := console w @ [Augmenting class_path (length images) target_count]\<rparr>"
  assume a: "augment_class_images L rnd class_path target_count w = Some (Inr w')
              \<and> listdir (files w') class_path = Inr final"
  with assms have run: "augment_loop L rnd class_path target_count images ?w = Some (Inr w')"
    by (simp add: augment_class_images_unfold)
  have l: "listdir (files ?w) class_path = Inr images" using assms by simp
  from a have f: "listdir (files w') class_path = Inr final" ..
  from augment_loop_names[OF run l f]
  show "\<forall>n \<in> set final. n \<in> set images \<or> (\<exists>d. \<exists>src \<in> set images. n = new_name d src)" .
qed

theorem sources_from_initial_listing_witness:
  "listdir (files demo_world) [''d'', ''cat''] = Inr [''a.jpg'', ''notes.txt'', ''b.PNG'', ''c.png'']
   \<and> augment_class_images demo_imaging demo_rnd [''d'', ''cat''] 5 demo_world = Some (Inr demo_world5)
   \<and> listdir (files demo_world5) [''d'', ''cat'']
        = Inr [''a.jpg'', ''notes.txt'', ''b.PNG'', ''c.png'', ''aug_10000_a.jpg'']
   \<and> (\<exists>d. \<exists>src \<in> set [''a.jpg'', ''notes.txt'', ''b.PNG'', ''c.png'']. ''aug_10000_a.jpg'' = new_name d src)"
proof -
  have h: "listdir (files demo_world) [''d'', ''cat''] = Inr [''a.jpg'', ''notes.txt'', ''b.PNG'', ''c.png'']"
    by (simp add: demo_world_def demo_listdir_cat)
  have f: "listdir (files demo_world5) [''d'', ''cat'']
        = Inr [''a.jpg'', ''notes.txt'', ''b.PNG'', ''c.png'', ''aug_10000_a.jpg'']"
    by (simp add: demo_world5_def listdir_def demo_fs_def children_def)
  from sources_from_initial_listing[OF h, of demo_imaging demo_rnd 5] demo_run5 f
  have "\<forall>n \<in> set [''a.jpg'', ''notes.txt'', ''b.PNG'', ''c.png'', ''aug_10000_a.jpg''].
          n \<in> set [''a.jpg'', ''notes.txt'', ''b.PNG'', ''c.png'']
          \<or> (\<exists>d. \<exists>src \<in> set [''a.jpg'', ''notes.txt'', ''b.PNG'', ''c.png'']. n = new_name d src)"
    by blast
  then have "''aug_10000_a.jpg'' \<in> set [''a.jpg'', ''notes.txt'', ''b.PNG'', ''c.png'']
          \<or> (\<exists>d. \<exists>src \<in> set [''a.jpg'', ''notes.txt'', ''b.PNG'', ''c.png'']. ''aug_10000_a.jpg'' = new_name d src)"
    by simp
  then have "\<exists>d. \<exists>src \<in> set [''a.jpg'', ''notes.txt'', ''b.PNG'', ''c.png'']. ''aug_10000_a.jpg'' = new_name d src"
    by simp
  with h demo_run5 f show ?thesis by blast
qed

text \<open>No random outcome makes an augmented file the source: started on a directory that
  holds only \<^verbatim>\<open>a.jpg\<close>, with the target 3, no run ends with a file named
  \<^verbatim>\<open>aug_<number>_aug_<number>_a.jpg\<close>.\<close>

theorem augmented_file_never_source_counterexample:
  "\<not> (\<exists>rnd w' final d e.
        augment_class_images demo_imaging rnd [''d'', ''cat''] 3 single_world = Some (Inr w')
        \<and> listdir (files w') [''d'', ''cat''] = Inr final
        \<and> new_name d (new_name e ''a.jpg'') \<in> set final)"
proof
  assume "\<exists>rnd w' final d e.
        augment_class_images demo_imaging rnd [''d'', ''cat''] 3 single_world = Some (Inr w')
        \<and> listdir (files w') [''d'', ''cat''] = Inr final
        \<and> new_name d (new_name e ''a.jpg'') \<in> set final"
  then obtain rnd w' final d e where
    run: "augment_class_images demo_imaging rnd [''d'', ''cat''] 3 single_world = Some (Inr w')"
    and f: "listdir (files w') [''d'', ''cat''] = Inr final"
    and m: "new_name d (new_name e ''a.jpg'') \<in> set final"
    by blast
  let ?w = "single_world\<lparr>console := console single_world @ [Augmenting [''d'', ''cat''] (length [''a.jpg'']) 3]\<rparr>"
  from run have r: "augment_loop demo_imaging rnd [''d'', ''cat''] 3 [''a.jpg''] ?w = Some (Inr w')"
    by (simp add: augment_class_images_unfold[OF single_listing])
  have l: "listdir (files ?w) [''d'', ''cat''] = Inr [''a.jpg'']"
    by (simp add: single_listing)
  from augment_loop_names[OF r l f] m
  have "new_name d (new_name e ''a.jpg'') \<in> set [''a.jpg'']
      \<or> (\<exists>d'. \<exists>src \<in> set [''a.jpg'']. new_name d (new_name e ''a.jpg'') = new_name d' src)"
    by blast
  then have "length (new_name d (new_name e ''a.jpg'')) = 5
      \<or> (\<exists>d'. length (new_name d (new_name e ''a.jpg'')) = length (new_name d' ''a.jpg''))"
    by auto
  then show False by (simp add: length_new_name)
qed

text \<open>
  C3, as the code has it. After step 5 has returned, every class directory of the training
  split lists at least \<open>target\<close> entries. No path of the store is lost, and a node that
  differs from what it was is a file in a class directory of the training split under a
  name that the loop generates from an entry that directory had before step 5,
  \<^verbatim>\<open>aug_<number from 10000 to 99999>_<name of the entry>\<close>: a new file, or a file that
  was there under such a name and was written again. Every other file is neither removed
  nor modified. The class names the loop runs over are the keys of the statistics taken
  before.
\<close>

theorem augmentation_reaches_target:
  fixes w :: "'c world"
  assumes "fst (count_images_in_classes train_dir w) = Inr train_stats"
    and "balance_classes L rnd train_dir target (map fst train_stats) w = Some (Inr w')"
  shows "(\<exists>classes. list_classes (files w') train_dir = Inr classes
            \<and> (\<forall>cls \<in> set classes. \<exists>cur. listdir (files w') (train_dir @ [cls]) = Inr cur
                  \<and> target \<le> int (length cur)))
       \<and> (\<forall>p. map_of (files w) p \<noteq> None \<longrightarrow> map_of (files w') p \<noteq> None)
       \<and> (\<forall>p. map_of (files w') p = map_of (files w) p
             \<or> (\<exists>cls e src c. p = train_dir @ [cls, new_name e src]
                   \<and> aug_pattern (new_name e src) src
                   \<and> map_of (files w) (train_dir @ [cls, src]) \<noteq> None
                   \<and> map_of (files w') p = Some (File c) \<and> map_of (files w) p \<noteq> Some Dir))"
proof -
  from balance_classes_post[OF assms(2)] have
    g: "grown (aug_area train_dir) (files w) (files w')"
    and reached: "\<forall>cls \<in> set (map fst train_stats).
        \<exists>cur. listdir (files w') (train_dir @ [cls]) = Inr cur \<and> target \<le> int (length cur)"
    by auto
  have gt: "grown (aug_targets train_dir (files w)) (files w) (files w')"
    by (rule balance_classes_tight[OF assms(2)])
  from count_images_classes[OF assms(1)] obtain classes where
    c: "list_classes (files w) train_dir = Inr classes" "set (map fst train_stats) = set classes"
    by blast
  have "list_classes (files w') train_dir = list_classes (files w) train_dir"
    using g by (intro grown_area_list_classes) auto
  with c reached have 1: "\<exists>classes. list_classes (files w') train_dir = Inr classes
            \<and> (\<forall>cls \<in> set classes. \<exists>cur. listdir (files w') (train_dir @ [cls]) = Inr cur
                  \<and> target \<le> int (length cur))"
    by auto
  have 2: "\<forall>p. map_of (files w) p \<noteq> None \<longrightarrow> map_of (files w') p \<noteq> None"
    using grown_present[OF g] by blast
  have 3: "map_of (files w') p = map_of (files w) p
             \<or> (\<exists>cls e src c. p = train_dir @ [cls, new_name e src]
                   \<and> aug_pattern (new_name e src) src
                   \<and> map_of (files w) (train_dir @ [cls, src]) \<noteq> None
                   \<and> map_of (files w') p = Some (File c) \<and> map_of (files w) p \<noteq> Some Dir)" for p
  proof (cases "map_of (files w') p = map_of (files w) p")
    case False
    from grown_changed[OF gt False] obtain cls d src c where
      "p = train_dir @ [cls, new_name d src]" "map_of (files w) (train_dir @ [cls, src]) \<noteq> None"
      "map_of (files w) p \<noteq> Some Dir" "map_of (files w') p = Some (File c)"
      by (auto simp: aug_targets_def)
    with new_name_pattern[of d src] show ?thesis by blast
  qed simp
  from 1 2 3 show ?thesis by blast
qed

theorem augmentation_reaches_target_witness:
  "fst (count_images_in_classes TRAIN_DIR dataset_world) = Inr [(''cat'', 1), (''dog'', 2)]
   \<and> balance_classes demo_imaging demo_rnd TRAIN_DIR 2 (map fst [(''cat'', 1::nat), (''dog'', 2)]) dataset_world
       = Some (Inr dataset_world2)
   \<and> (\<exists>cur. listdir (files dataset_world2) (TRAIN_DIR @ [''cat'']) = Inr cur \<and> 2 \<le> int (length cur))
   \<and> (\<exists>cur. listdir (files dataset_world2) (TRAIN_DIR @ [''dog'']) = Inr cur \<and> 2 \<le> int (length cur))
   \<and> map_of (files dataset_world2) (TRAIN_DIR @ [''cat'', ''a.jpg''])
       = map_of (files dataset_world) (TRAIN_DIR @ [''cat'', ''a.jpg''])
   \<and> map_of (files dataset_world2) (TRAIN_DIR @ [''cat'', ''a.jpg'']) = Some (File 1)"
proof -
  have h1: "fst (count_images_in_classes TRAIN_DIR dataset_world) = Inr [(''cat'', 1), (''dog'', 2)]"
    by (simp add: dataset_counts)
  have h2: "balance_classes demo_imaging demo_rnd TRAIN_DIR 2
      (map fst [(''cat'', 1::nat), (''dog'', 2)]) dataset_world = Some (Inr dataset_world2)"
    using dataset_run by simp
  from augmentation_reaches_target[OF h1 h2] obtain classes where
    c: "list_classes (files dataset_world2) TRAIN_DIR = Inr classes"
    and r: "\<forall>cls \<in> set classes. \<exists>cur. listdir (files dataset_world2) (TRAIN_DIR @ [cls]) = Inr cur
              \<and> 2 \<le> int (length cur)"
    and ch: "\<forall>p. map_of (files dataset_world2) p = map_of (files dataset_world) p
         \<or> (\<exists>cls e src c. p = TRAIN_DIR @ [cls, new_name e src]
               \<and> aug_pattern (new_name e src) src
               \<and> map_of (files dataset_world) (TRAIN_DIR @ [cls, src]) \<noteq> None
               \<and> map_of (files dataset_world2) p = Some (File c)
               \<and> map_of (files dataset_world) p \<noteq> Some Dir)"
    by blast
  from c have "classes = [''cat'', ''dog'']" by (simp add: dataset_list_classes2)
  with r have 1: "\<exists>cur. listdir (files dataset_world2) (TRAIN_DIR @ [''cat'']) = Inr cur \<and> 2 \<le> int (length cur)"
    and 2: "\<exists>cur. listdir (files dataset_world2) (TRAIN_DIR @ [''dog'']) = Inr cur \<and> 2 \<le> int (length cur)"
    by simp_all
  have na: "''a.jpg'' \<noteq> new_name e src" for e src
  proof
    assume "''a.jpg'' = new_name e src"
    with new_name_pattern[of e src] have "aug_pattern ''a.jpg'' src" by simp
    then show False by (simp add: aug_pattern_def)
  qed
  from ch have "map_of (files dataset_world2) (TRAIN_DIR @ [''cat'', ''a.jpg''])
        = map_of (files dataset_world) (TRAIN_DIR @ [''cat'', ''a.jpg''])
      \<or> (\<exists>cls e src c. TRAIN_DIR @ [''cat'', ''a.jpg''] = TRAIN_DIR @ [cls, new_name e src]
               \<and> aug_pattern (new_name e src) src
               \<and> map_of (files dataset_world) (TRAIN_DIR @ [cls, src]) \<noteq> None
               \<and> map_of (files dataset_world2) (TRAIN_DIR @ [''cat'', ''a.jpg'']) = Some (File c)
               \<and> map_of (files dataset_world) (TRAIN_DIR @ [''cat'', ''a.jpg'']) \<noteq> Some Dir)"
    by (rule spec)
  with na have 3: "map_of (files dataset_world2) (TRAIN_DIR @ [''cat'', ''a.jpg''])
        = map_of (files dataset_world) (TRAIN_DIR @ [''cat'', ''a.jpg''])"
    by auto
  have 4: "map_of (files dataset_world) (TRAIN_DIR @ [''cat'', ''a.jpg'']) = Some (File 1)"
    by (simp add: dataset_world_def dataset_fs_def dirs)
  from h1 h2 1 2 3 4 show ?thesis by simp
qed

text \<open>A file that is in a class directory before step 5 can be modified: the generated
  name is not checked against the directory. In a class of three files, one of them named
  \<^verbatim>\<open>aug_10000_a.jpg\<close>, the first iteration generates that name from \<^verbatim>\<open>a.jpg\<close> and
  writes over the file; step 5 returns with five files, and the content that was 50 is
  101.\<close>

theorem existing_aug_file_overwritten_counterexample:
  "fst (count_images_in_classes [''d''] clash_world) = Inr [(''cat'', 3)]
   \<and> balance_classes demo_imaging demo_rnd [''d''] 5 (map fst [(''cat'', 3::nat)]) clash_world
        = Some (Inr clash_world3)
   \<and> read_file (files clash_world) [''d'', ''cat'', ''aug_10000_a.jpg''] = Inr 50
   \<and> read_file (files clash_world3) [''d'', ''cat'', ''aug_10000_a.jpg''] = Inr 101"
proof -
  have before: "read_file (files clash_world) [''d'', ''cat'', ''aug_10000_a.jpg''] = Inr 50"
    by (simp add: read_file_def clash_world_def)
  have after: "read_file (files clash_world3) [''d'', ''cat'', ''aug_10000_a.jpg''] = Inr 101"
    by (simp add: read_file_def clash_world3_def clash_world2_def clash_world1_def)
  from clash_balance before after show ?thesis by (simp add: clash_counts)
qed

text \<open>
  C4. Step 5 never changes the validation and test splits. After the loop over the
  training classes has returned, the part of the store at and below \<open>VAL_DIR\<close>, and the
  part at and below \<open>TEST_DIR\<close>, are what they were: the same paths in the same order,
  with the same contents. So is every node outside \<open>TRAIN_DIR\<close>, and
  \<^verbatim>\<open>count_images_in_classes\<close> gives for both splits the result it gave before. This holds
  for every target count and every list of class names; and every single iteration of the
  loop on a class directory of the training split, finished call or not, leaves the store
  outside \<open>TRAIN_DIR\<close> as it was.
\<close>

theorem augmentation_leaves_val_test:
  fixes w :: "'c world"
  assumes "balance_classes L rnd TRAIN_DIR target keys w = Some (Inr w')"
  shows "under VAL_DIR (files w') = under VAL_DIR (files w)
       \<and> under TEST_DIR (files w') = under TEST_DIR (files w)
       \<and> outside TRAIN_DIR (files w') = outside TRAIN_DIR (files w)
       \<and> (\<forall>p. take (length TRAIN_DIR) p \<noteq> TRAIN_DIR \<longrightarrow> map_of (files w') p = map_of (files w) p)
       \<and> fst (count_images_in_classes VAL_DIR w') = fst (count_images_in_classes VAL_DIR w)
       \<and> fst (count_images_in_classes TEST_DIR w') = fst (count_images_in_classes TEST_DIR w)
       \<and> (\<forall>(v::'c world) cls n d.
             outside TRAIN_DIR (files (loop_body L (TRAIN_DIR @ [cls]) n d v)) = outside TRAIN_DIR (files v))"
proof -
  from balance_classes_post[OF assms] have g: "grown (aug_area TRAIN_DIR) (files w) (files w')"
    by simp
  have o: "outside TRAIN_DIR (files w') = outside TRAIN_DIR (files w)"
    by (rule balance_classes_outside[OF assms])
  have d: "length VAL_DIR = length TRAIN_DIR" "VAL_DIR \<noteq> TRAIN_DIR"
       "length TEST_DIR = length TRAIN_DIR" "TEST_DIR \<noteq> TRAIN_DIR"
    by (simp_all add: VAL_DIR_def TEST_DIR_def TRAIN_DIR_def)
  have uv: "under VAL_DIR (outside TRAIN_DIR fs) = under VAL_DIR fs" for fs :: "'c fs"
    by (rule under_outside) (simp_all add: d)
  have ut: "under TEST_DIR (outside TRAIN_DIR fs) = under TEST_DIR fs" for fs :: "'c fs"
    by (rule under_outside) (simp_all add: d)
  have 1: "under VAL_DIR (files w') = under VAL_DIR (files w)"
    using uv[of "files w'"] uv[of "files w"] o by simp
  have 2: "under TEST_DIR (files w') = under TEST_DIR (files w)"
    using ut[of "files w'"] ut[of "files w"] o by simp
  have 4: "\<forall>p. take (length TRAIN_DIR) p \<noteq> TRAIN_DIR \<longrightarrow> map_of (files w') p = map_of (files w) p"
    using outside_map_of[of TRAIN_DIR _ "files w'"] outside_map_of[of TRAIN_DIR _ "files w"] o by metis
  have 5: "fst (count_images_in_classes VAL_DIR w') = fst (count_images_in_classes VAL_DIR w)"
    "fst (count_images_in_classes TEST_DIR w') = fst (count_images_in_classes TEST_DIR w)"
    using g d by (simp_all add: grown_area_counts)
  have 6: "\<forall>(v::'c world) cls n d.
             outside TRAIN_DIR (files (loop_body L (TRAIN_DIR @ [cls]) n d v)) = outside TRAIN_DIR (files v)"
    by (simp add: loop_body_outside)
  from 1 2 o 4 5 6 show ?thesis by blast
qed

theorem augmentation_leaves_val_test_witness:
  "balance_classes demo_imaging demo_rnd TRAIN_DIR 2 [''cat'', ''dog''] dataset_world
     = Some (Inr dataset_world2)
   \<and> files dataset_world2 \<noteq> files dataset_world
   \<and> under VAL_DIR (files dataset_world2) = under VAL_DIR (files dataset_world)
   \<and> under VAL_DIR (files dataset_world)
       = [(VAL_DIR, Dir), (VAL_DIR @ [''cat''], Dir), (VAL_DIR @ [''cat'', ''v.jpg''], File 4)]
   \<and> under TEST_DIR (files dataset_world2) = under TEST_DIR (files dataset_world)
   \<and> under TEST_DIR (files dataset_world)
       = [(TEST_DIR, Dir), (TEST_DIR @ [''cat''], Dir), (TEST_DIR @ [''cat'', ''t.jpeg''], File 5)]
   \<and> fst (count_images_in_classes VAL_DIR dataset_world2) = fst (count_images_in_classes VAL_DIR dataset_world)
   \<and> fst (count_images_in_classes TEST_DIR dataset_world2) = fst (count_images_in_classes TEST_DIR dataset_world)
   \<and> fst (count_images_in_classes VAL_DIR dataset_world) = Inr [(''cat'', 1)]
   \<and> fst (count_images_in_classes TEST_DIR dataset_world) = Inr [(''cat'', 1)]"
proof -
  have ne: "files dataset_world2 \<noteq> files dataset_world"
    by (simp add: dataset_world2_def dataset_world_def)
  from augmentation_leaves_val_test[OF dataset_run] dataset_run ne show ?thesis
    by (simp add: dataset_counts dataset_under)
qed

text \<open>
  C5. The mapping returned by \<^verbatim>\<open>count_images_in_classes\<close> has as keys exactly the names
  in the split directory that are directories, each once, in sorted order; the call leaves
  the world (files and console) as it was, whether it returns or raises.
\<close>

theorem count_images_keys:
  "snd (count_images_in_classes base_path w) = w
   \<and> (\<forall>counts. fst (count_images_in_classes base_path w) = Inr counts \<longrightarrow>
         (\<exists>names. listdir (files w) base_path = Inr names
            \<and> set (map fst counts) = set (filter (\<lambda>d. isdir (files w) (base_path @ [d])) names)
            \<and> sorted (map fst counts) \<and> distinct (map fst counts)))"
proof (intro conjI allI impI)
  show "snd (count_images_in_classes base_path w) = w"
    by (simp add: count_images_in_classes_def split: sum.splits)
next
  fix counts
  assume a: "fst (count_images_in_classes base_path w) = Inr counts"
  then obtain names where names: "listdir (files w) base_path = Inr names"
    by (cases "listdir (files w) base_path") (auto simp: count_images_in_classes_def list_classes_def)
  let ?cs = "sort (filter (\<lambda>d. isdir (files w) (base_path @ [d])) names)"
  from a names have run: "count_loop (files w) base_path ?cs [] = Inr counts"
    by (simp add: count_images_in_classes_def list_classes_def)
  from count_loop_keys[OF run] have
    "sorted (map fst counts) \<and> distinct (map fst counts) \<and> set (map fst counts) = set ?cs"
    by simp
  with names show "\<exists>names. listdir (files w) base_path = Inr names
            \<and> set (map fst counts) = set (filter (\<lambda>d. isdir (files w) (base_path @ [d])) names)
            \<and> sorted (map fst counts) \<and> distinct (map fst counts)"
    by auto
qed

theorem count_images_keys_witness:
  "fst (count_images_in_classes [''d''] demo_world) = Inr [(''cat'', 3), (''dog'', 0)]
   \<and> snd (count_images_in_classes [''d''] demo_world) = demo_world
   \<and> (\<exists>names. listdir (files demo_world) [''d''] = Inr names
         \<and> set (map fst [(''cat'', 3::nat), (''dog'', 0)])
             = set (filter (\<lambda>d. isdir (files demo_world) ([''d''] @ [d])) names)
         \<and> sorted (map fst [(''cat'', 3::nat), (''dog'', 0)])
         \<and> distinct (map fst [(''cat'', 3::nat), (''dog'', 0)]))"
proof -
  have h: "fst (count_images_in_classes [''d''] demo_world) = Inr [(''cat'', 3), (''dog'', 0)]"
    by (simp add: demo_counts)
  from count_images_keys[of "[''d'']" demo_world] h show ?thesis by blast
qed

text \<open>
  C6, as the code has it. A class directory holds exactly three entries, files with names
  ending in \<^verbatim>\<open>.jpg\<close> that decode, none of them under a name that the loop generates
  from one of the three, \<^verbatim>\<open>aug_<number from 10000 to 99999>_<name of one of the three>\<close>;
  the library transforms every image and saves under every \<^verbatim>\<open>.jpg\<close> name. Whenever
  a call with target 5 returns, whatever the random draws were, the directory lists the
  three originals and two new, different names, each of the form
  \<^verbatim>\<open>aug_<5 digits>_<original name>\<close>, and the originals are unchanged. The first
  iteration always adds a file. An iteration that generates the name of the first again
  writes that file again and the loop goes on; the first iteration \<open>k\<close> that generates
  another name adds the fifth file, and the call returns after \<open>k + 1\<close> iterations. So
  the call returns exactly when the draws generate, at some iteration, a name different
  from the first, and it never raises.
\<close>

theorem three_jpgs_reach_five:
  fixes w :: "'c world"
  assumes listing: "listdir (files w) class_path = Inr [a, b, c]"
    and valid: "\<And>n. n \<in> set [a, b, c] \<Longrightarrow>
        endswith (lower n) ''.jpg''
        \<and> (\<exists>x img. read_file (files w) (class_path @ [n]) = Inr x \<and> open_rgb L x = Some img)"
    and originals: "\<And>n orig e. n \<in> set [a, b, c] \<Longrightarrow> orig \<in> set [a, b, c] \<Longrightarrow> n \<noteq> new_name e orig"
    and transforms: "\<And>s img. augmentations L s img \<noteq> None"
    and saves: "\<And>n img. endswith (lower n) ''.jpg'' \<Longrightarrow> save L n img \<noteq> None"
  shows "(\<forall>rnd w'. augment_class_images L rnd class_path 5 w = Some (Inr w') \<longrightarrow>
            (\<exists>n1 n2. listdir (files w') class_path = Inr [a, b, c, n1, n2] \<and> n1 \<noteq> n2
               \<and> (\<exists>o1 \<in> set [a, b, c]. aug_pattern n1 o1)
               \<and> (\<exists>o2 \<in> set [a, b, c]. aug_pattern n2 o2)
               \<and> (\<forall>n \<in> set [a, b, c].
                     map_of (files w') (class_path @ [n]) = map_of (files w) (class_path @ [n]))))
       \<and> (\<forall>rnd k. generated_name rnd [a, b, c] w k \<noteq> generated_name rnd [a, b, c] w 0
                 \<and> (\<forall>j<k. generated_name rnd [a, b, c] w j = generated_name rnd [a, b, c] w 0) \<longrightarrow>
            (\<exists>w'. augment_class_images L rnd class_path 5 w = Some (Inr w')
                  \<and> draws w' = Suc (draws w + k)
                  \<and> listdir (files w') class_path
                      = Inr [a, b, c, generated_name rnd [a, b, c] w 0, generated_name rnd [a, b, c] w k]))
       \<and> (\<forall>rnd. (\<exists>w'. augment_class_images L rnd class_path 5 w = Some (Inr w'))
                 \<longleftrightarrow> (\<exists>k. generated_name rnd [a, b, c] w k \<noteq> generated_name rnd [a, b, c] w 0))
       \<and> (\<forall>rnd e. augment_class_images L rnd class_path 5 w \<noteq> Some (Inl e))"
proof -
  let ?w0 = "w\<lparr>console := console w @ [Augmenting class_path (length [a, b, c]) 5]\<rparr>"
  have l: "listdir (files ?w0) class_path = Inr [a, b, c]" using listing by simp
  have A: "\<exists>n1 n2. listdir (files w') class_path = Inr [a, b, c, n1, n2] \<and> n1 \<noteq> n2
               \<and> (\<exists>o1 \<in> set [a, b, c]. aug_pattern n1 o1)
               \<and> (\<exists>o2 \<in> set [a, b, c]. aug_pattern n2 o2)
               \<and> (\<forall>n \<in> set [a, b, c].
                     map_of (files w') (class_path @ [n]) = map_of (files w) (class_path @ [n]))"
    if "augment_class_images L rnd class_path 5 w = Some (Inr w')" for rnd and w' :: "'c world"
  proof -
    from that listing have run: "augment_loop L rnd class_path 5 [a, b, c] ?w0 = Some (Inr w')"
      by (simp add: augment_class_images_unfold)
    from augment_loop_partial[OF run l originals] obtain news where
      n: "listdir (files w') class_path = Inr ([a, b, c] @ news)"
        "int (length ([a, b, c] @ news)) = 5" "distinct news"
        "\<forall>n \<in> set news. \<exists>orig \<in> set [a, b, c]. aug_pattern n orig"
        "\<forall>n \<in> set [a, b, c]. map_of (files w') (class_path @ [n]) = map_of (files ?w0) (class_path @ [n])"
      by auto
    from n(2) have "length news = 2" by simp
    then obtain n1 n2 where news: "news = [n1, n2]"
      by (auto simp: length_Suc_conv numeral_2_eq_2)
    with n show ?thesis
      by (intro exI[of _ n1] exI[of _ n2]) simp
  qed
  have B: "\<exists>w'. augment_class_images L rnd class_path 5 w = Some (Inr w')
                  \<and> draws w' = Suc (draws w + k)
                  \<and> listdir (files w') class_path
                      = Inr [a, b, c, generated_name rnd [a, b, c] w 0, generated_name rnd [a, b, c] w k]"
    if "generated_name rnd [a, b, c] w k \<noteq> generated_name rnd [a, b, c] w 0"
      and "\<forall>j<k. generated_name rnd [a, b, c] w j = generated_name rnd [a, b, c] w 0" for rnd k
  proof (rule repeated_name_return[OF listing valid originals transforms saves that(1)])
    fix j assume "j < k"
    with that(2) show "generated_name rnd [a, b, c] w j = generated_name rnd [a, b, c] w 0"
      by blast
  qed
  have C: "(\<exists>w'. augment_class_images L rnd class_path 5 w = Some (Inr w'))
                 \<longleftrightarrow> (\<exists>k. generated_name rnd [a, b, c] w k \<noteq> generated_name rnd [a, b, c] w 0)" for rnd
  proof
    assume "\<exists>w'. augment_class_images L rnd class_path 5 w = Some (Inr w')"
    then obtain w' where "augment_class_images L rnd class_path 5 w = Some (Inr w')" ..
    then show "\<exists>k. generated_name rnd [a, b, c] w k \<noteq> generated_name rnd [a, b, c] w 0"
      by (rule returned_name_differs[OF listing])
  next
    let ?P = "\<lambda>k. generated_name rnd [a, b, c] w k \<noteq> generated_name rnd [a, b, c] w 0"
    assume ex: "\<exists>k. ?P k"
    define k where "k = (LEAST k. ?P k)"
    from ex have 1: "?P k" unfolding k_def by (rule LeastI_ex)
    have 2: "\<forall>j<k. generated_name rnd [a, b, c] w j = generated_name rnd [a, b, c] w 0"
    proof (intro allI impI)
      fix j assume "j < k"
      then have "\<not> ?P j" unfolding k_def by (rule not_less_Least)
      then show "generated_name rnd [a, b, c] w j = generated_name rnd [a, b, c] w 0" by blast
    qed
    from B[OF 1 2] show "\<exists>w'. augment_class_images L rnd class_path 5 w = Some (Inr w')"
      by blast
  qed
  have D: "augment_class_images L rnd class_path 5 w \<noteq> Some (Inl e)" for rnd e
  proof
    assume "augment_class_images L rnd class_path 5 w = Some (Inl e)"
    with listing have run: "augment_loop L rnd class_path 5 [a, b, c] ?w0 = Some (Inl e)"
      by (simp add: augment_class_images_unfold)
    from listdir_InrD[OF l] have "isdir (files ?w0) class_path" by simp
    from augment_loop_result[OF run this] show False by simp
  qed
  show ?thesis
  proof (intro conjI allI impI)
    fix rnd and w' :: "'c world"
    assume "augment_class_images L rnd class_path 5 w = Some (Inr w')"
    then show "\<exists>n1 n2. listdir (files w') class_path = Inr [a, b, c, n1, n2] \<and> n1 \<noteq> n2
               \<and> (\<exists>o1 \<in> set [a, b, c]. aug_pattern n1 o1)
               \<and> (\<exists>o2 \<in> set [a, b, c]. aug_pattern n2 o2)
               \<and> (\<forall>n \<in> set [a, b, c].
                     map_of (files w') (class_path @ [n]) = map_of (files w) (class_path @ [n]))"
      by (rule A)
  next
    fix rnd k
    assume h: "generated_name rnd [a, b, c] w k \<noteq> generated_name rnd [a, b, c] w 0
                 \<and> (\<forall>j<k. generated_name rnd [a, b, c] w j = generated_name rnd [a, b, c] w 0)"
    show "\<exists>w'. augment_class_images L rnd class_path 5 w = Some (Inr w')
                  \<and> draws w' = Suc (draws w + k)
                  \<and> listdir (files w') class_path
                      = Inr [a, b, c, generated_name rnd [a, b, c] w 0, generated_name rnd [a, b, c] w k]"
      by (rule B[OF conjunct1[OF h] conjunct2[OF h]])
  next
    fix rnd
    show "(\<exists>w'. augment_class_images L rnd class_path 5 w = Some (Inr w'))
                 \<longleftrightarrow> (\<exists>k. generated_name rnd [a, b, c] w k \<noteq> generated_name rnd [a, b, c] w 0)"
      by (rule C)
  next
    fix rnd e
    show "augment_class_images L rnd class_path 5 w \<noteq> Some (Inl e)" by (rule D)
  qed
qed


theorem three_jpgs_reach_five_witness:
  "\<exists>w'. augment_class_images demo_imaging repeat_rnd [''d'', ''cat''] 5 three_world = Some (Inr w')
        \<and> draws w' = 3
        \<and> listdir (files w') [''d'', ''cat'']
            = Inr [''a.jpg'', ''b.jpg'', ''c.jpg'', ''aug_10000_a.jpg'', ''aug_10001_a.jpg'']
        \<and> (\<exists>o1 \<in> set [''a.jpg'', ''b.jpg'', ''c.jpg'']. aug_pattern ''aug_10000_a.jpg'' o1)
        \<and> (\<exists>o2 \<in> set [''a.jpg'', ''b.jpg'', ''c.jpg'']. aug_pattern ''aug_10001_a.jpg'' o2)
        \<and> (\<forall>n \<in> set [''a.jpg'', ''b.jpg'', ''c.jpg''].
              map_of (files w') ([''d'', ''cat''] @ [n])
                = map_of (files three_world) ([''d'', ''cat''] @ [n]))"
proof -
  let ?images = "[''a.jpg'', ''b.jpg'', ''c.jpg'']"
  have tr: "augmentations demo_imaging s img \<noteq> None" for s img
    by (simp add: demo_imaging_def)
  have sv: "save demo_imaging n img \<noteq> None" if "endswith (lower n) ''.jpg''" for n img
    using dot_jpg_image_suffix[OF that] by (simp add: demo_imaging_def)
  note t = three_jpgs_reach_five[OF three_listing three_valid three_originals tr sv]
  have ne: "generated_name repeat_rnd ?images three_world 2 \<noteq> generated_name repeat_rnd ?images three_world 0"
    by (simp add: repeat_names)
  have eq: "\<forall>j<2. generated_name repeat_rnd ?images three_world j = generated_name repeat_rnd ?images three_world 0"
  proof (intro allI impI)
    fix j :: nat assume "j < 2"
    then have "j = 0 \<or> j = Suc 0" by auto
    then show "generated_name repeat_rnd ?images three_world j = generated_name repeat_rnd ?images three_world 0"
      by (auto simp: repeat_names)
  qed
  from t ne eq obtain w' where
    run: "augment_class_images demo_imaging repeat_rnd [''d'', ''cat''] 5 three_world = Some (Inr w')"
    and d: "draws w' = Suc (draws three_world + 2)"
    and l: "listdir (files w') [''d'', ''cat'']
        = Inr [''a.jpg'', ''b.jpg'', ''c.jpg'', generated_name repeat_rnd ?images three_world 0,
               generated_name repeat_rnd ?images three_world 2]"
    by blast
  from t run obtain n1 n2 where
    post: "listdir (files w') [''d'', ''cat''] = Inr [''a.jpg'', ''b.jpg'', ''c.jpg'', n1, n2]"
      "\<exists>o1 \<in> set ?images. aug_pattern n1 o1" "\<exists>o2 \<in> set ?images. aug_pattern n2 o2"
      "\<forall>n \<in> set ?images. map_of (files w') ([''d'', ''cat''] @ [n])
                = map_of (files three_world) ([''d'', ''cat''] @ [n])"
    by blast
  from l have l': "listdir (files w') [''d'', ''cat'']
            = Inr [''a.jpg'', ''b.jpg'', ''c.jpg'', ''aug_10000_a.jpg'', ''aug_10001_a.jpg'']"
    by (simp only: repeat_names)
  with post(1) have n: "n1 = ''aug_10000_a.jpg''" "n2 = ''aug_10001_a.jpg''" by simp_all
  from d have d': "draws w' = 3" by (simp add: three_world_def)
  from run d' l' post(2,3,4) show ?thesis unfolding n by blast
qed

text \<open>When one of the three files is itself named \<^verbatim>\<open>aug_10000_a.jpg\<close>, beside
  \<^verbatim>\<open>a.jpg\<close>, a draw that generates this name overwrites it: all three files pass the
  cleanup, the call returns with five entries, but one of the three has changed.\<close>

theorem three_jpgs_counterexample:
  "listdir (files clash_world) [''d'', ''cat''] = Inr [''a.jpg'', ''b.jpg'', ''aug_10000_a.jpg'']
   \<and> kept demo_imaging (files clash_world) [''d'', ''cat''] ''a.jpg''
   \<and> kept demo_imaging (files clash_world) [''d'', ''cat''] ''b.jpg''
   \<and> kept demo_imaging (files clash_world) [''d'', ''cat''] ''aug_10000_a.jpg''
   \<and> ''aug_10000_a.jpg'' = new_name (demo_rnd 0) ''a.jpg''
   \<and> augment_class_images demo_imaging demo_rnd [''d'', ''cat''] 5 clash_world = Some (Inr clash_world3)
   \<and> read_file (files clash_world) [''d'', ''cat'', ''aug_10000_a.jpg''] = Inr 50
   \<and> read_file (files clash_world3) [''d'', ''cat'', ''aug_10000_a.jpg''] = Inr 101"
proof -
  have before: "read_file (files clash_world) [''d'', ''cat'', ''aug_10000_a.jpg''] = Inr 50"
    by (simp add: read_file_def clash_world_def)
  have after: "read_file (files clash_world3) [''d'', ''cat'', ''aug_10000_a.jpg''] = Inr 101"
    by (simp add: read_file_def clash_world3_def clash_world2_def clash_world1_def)
  have pat: "''aug_10000_a.jpg'' = new_name (demo_rnd 0) ''a.jpg''"
    by (simp add: new_name_demo0)
  from clash_listing(1) clash_kept clash_run pat before after show ?thesis by simp
qed

text \<open>
  C7, as the code has it. An exception raised inside \<^verbatim>\<open>try\<close> (opening and converting
  the image, transforming it, saving it) is caught: the iteration prints one
  \<^verbatim>\<open>Error augmenting\<close> line and leaves the files as they were. The loop then goes on from
  that world with the next draw. A call on a directory ends in one of two ways only: it
  returns with the listing at the target or above, or, when the listing read at the start
  is empty, \<^verbatim>\<open>random.choice\<close> raises \<^verbatim>\<open>IndexError\<close>, which nothing catches.
\<close>

theorem per_image_errors_caught:
  fixes w :: "'c world"
  assumes "listdir (files w) class_path = Inr images"
  shows "(\<forall>(v::'c world) img_name d. try_augment L (files v) class_path img_name d = None \<longrightarrow>
            loop_body L class_path img_name d v
              = v\<lparr>console := console v @ [ErrorAugmenting img_name], draws := Suc (draws v)\<rparr>)
       \<and> (\<forall>(v::'c world) cur. listdir (files v) class_path = Inr cur \<and> int (length cur) < target_count
              \<and> images \<noteq> [] \<longrightarrow>
            augment_loop L rnd class_path target_count images v
              = augment_loop L rnd class_path target_count images
                  (loop_body L class_path (images ! (pick (rnd (draws v)) mod length images))
                     (rnd (draws v)) v))
       \<and> (\<forall>r. augment_class_images L rnd class_path target_count w = Some r \<longrightarrow>
            (\<exists>w' cur. r = Inr w' \<and> listdir (files w') class_path = Inr cur
                 \<and> target_count \<le> int (length cur))
            \<or> (r = Inl IndexError \<and> images = []))"
proof (intro conjI allI impI)
  fix v :: "'c world" and img_name d
  assume "try_augment L (files v) class_path img_name d = None"
  then show "loop_body L class_path img_name d v
      = v\<lparr>console := console v @ [ErrorAugmenting img_name], draws := Suc (draws v)\<rparr>"
    by (simp add: loop_body_def)
next
  fix v :: "'c world" and cur
  assume "listdir (files v) class_path = Inr cur \<and> int (length cur) < target_count \<and> images \<noteq> []"
  then show "augment_loop L rnd class_path target_count images v
              = augment_loop L rnd class_path target_count images
                  (loop_body L class_path (images ! (pick (rnd (draws v)) mod length images))
                     (rnd (draws v)) v)"
    by (intro augment_loop_step) auto
next
  fix r
  let ?w = "w\<lparr>console := console w @ [Augmenting class_path (length images) target_count]\<rparr>"
  assume "augment_class_images L rnd class_path target_count w = Some r"
  with assms have run: "augment_loop L rnd class_path target_count images ?w = Some r"
    by (simp add: augment_class_images_unfold)
  from assms have "isdir (files ?w) class_path" using listdir_InrD by fastforce
  from augment_loop_result[OF run this]
  show "(\<exists>w' cur. r = Inr w' \<and> listdir (files w') class_path = Inr cur
                 \<and> target_count \<le> int (length cur))
            \<or> (r = Inl IndexError \<and> images = [])" .
qed

theorem per_image_errors_caught_witness:
  "listdir (files demo_world) [''d'', ''cat''] = Inr [''a.jpg'', ''notes.txt'', ''b.PNG'', ''c.png'']
   \<and> try_augment demo_imaging (files demo_world) [''d'', ''cat''] ''notes.txt'' (demo_rnd 0) = None
   \<and> loop_body demo_imaging [''d'', ''cat''] ''notes.txt'' (demo_rnd 0) demo_world
       = demo_world\<lparr>console := console demo_world @ [ErrorAugmenting ''notes.txt''],
                    draws := Suc (draws demo_world)\<rparr>
   \<and> augment_class_images demo_imaging demo_rnd [''d'', ''cat''] 5 demo_world = Some (Inr demo_world5)
   \<and> (\<exists>w' cur. Inr demo_world5 = Inr w' \<and> listdir (files w') [''d'', ''cat''] = Inr cur
          \<and> 5 \<le> int (length cur))"
proof -
  have h: "listdir (files demo_world) [''d'', ''cat''] = Inr [''a.jpg'', ''notes.txt'', ''b.PNG'', ''c.png'']"
    by (simp add: demo_world_def demo_listdir_cat)
  note t = per_image_errors_caught[OF h, of demo_imaging 5 demo_rnd]
  from t have "try_augment demo_imaging (files demo_world) [''d'', ''cat''] ''notes.txt'' (demo_rnd 0) = None \<longrightarrow>
       loop_body demo_imaging [''d'', ''cat''] ''notes.txt'' (demo_rnd 0) demo_world
       = demo_world\<lparr>console := console demo_world @ [ErrorAugmenting ''notes.txt''],
                    draws := Suc (draws demo_world)\<rparr>"
    by blast
  with demo_failed_attempt have 1: "loop_body demo_imaging [''d'', ''cat''] ''notes.txt'' (demo_rnd 0) demo_world
       = demo_world\<lparr>console := console demo_world @ [ErrorAugmenting ''notes.txt''],
                    draws := Suc (draws demo_world)\<rparr>"
    by blast
  from t have "augment_class_images demo_imaging demo_rnd [''d'', ''cat''] 5 demo_world = Some (Inr demo_world5) \<longrightarrow>
       (\<exists>w' cur. Inr demo_world5 = Inr w' \<and> listdir (files w') [''d'', ''cat''] = Inr cur
          \<and> 5 \<le> int (length cur))
       \<or> ((Inr demo_world5 :: error + nat world) = Inl IndexError
            \<and> [''a.jpg'', ''notes.txt'', ''b.PNG'', ''c.png''] = [])"
    by blast
  with demo_run5 have 2: "\<exists>w' cur. Inr demo_world5 = Inr w' \<and> listdir (files w') [''d'', ''cat''] = Inr cur
          \<and> 5 \<le> int (length cur)"
    by simp
  from h demo_failed_attempt 1 demo_run5 2 show ?thesis by blast
qed

text \<open>The loop can end with the listing below the target: on an empty class directory the
  call ends at once with \<^verbatim>\<open>IndexError\<close>.\<close>

theorem loop_ends_below_target_counterexample:
  "listdir (files demo_world) [''d'', ''dog''] = Inr []
   \<and> int (length ([] :: string list)) < 7
   \<and> augment_class_images demo_imaging demo_rnd [''d'', ''dog''] 7 demo_world = Some (Inl IndexError)"
proof -
  have h: "listdir (files demo_world) [''d'', ''dog''] = Inr []"
    by (simp add: demo_world_def demo_listdir_dog)
  then show ?thesis
    by (simp add: augment_class_images_def augment_loop_empty)
qed

text \<open>
  C8. Calling \<^verbatim>\<open>augment_class_images\<close> on a class directory whose listing already has
  at least \<open>target_count\<close> entries (empty or not) is a no-op and not an error: it returns
  normally, the loop body never runs (no random draw is consumed, no error line is printed),
  the files are unchanged and only the announcement line is printed. Step 5 does not even
  make the call for such a class and leaves the whole world as it was.
\<close>

theorem augment_noop_when_target_met:
  assumes "listdir (files w) (train_dir @ [cls]) = Inr images"
    and "target_count \<le> int (length images)"
  shows "augment_class_images L rnd (train_dir @ [cls]) target_count w =
           Some (Inr (w\<lparr>console := console w
                         @ [Augmenting (train_dir @ [cls]) (length images) target_count]\<rparr>))
         \<and> balance_classes L rnd train_dir target_count [cls] w = Some (Inr w)"
  using assms by (simp add: augment_class_images_def augment_loop_done)

theorem augment_noop_when_target_met_witness:
  "listdir (files demo_world) ([''d''] @ [''cat'']) = Inr [''a.jpg'', ''notes.txt'', ''b.PNG'', ''c.png'']
   \<and> (3::int) \<le> int (length [''a.jpg'', ''notes.txt'', ''b.PNG'', ''c.png''])
   \<and> augment_class_images demo_imaging demo_rnd ([''d''] @ [''cat'']) 3 demo_world =
         Some (Inr (demo_world\<lparr>console := console demo_world
           @ [Augmenting ([''d''] @ [''cat''])
                (length [''a.jpg'', ''notes.txt'', ''b.PNG'', ''c.png'']) 3]\<rparr>))
   \<and> balance_classes demo_imaging demo_rnd [''d''] 3 [''cat''] demo_world = Some (Inr demo_world)"
proof -
  have h1: "listdir (files demo_world) ([''d''] @ [''cat''])
              = Inr [''a.jpg'', ''notes.txt'', ''b.PNG'', ''c.png'']"
    by (simp add: demo_world_def demo_listdir_cat)
  have h2: "(3::int) \<le> int (length [''a.jpg'', ''notes.txt'', ''b.PNG'', ''c.png''])" by simp
  from augment_noop_when_target_met[OF h1 h2, of demo_imaging demo_rnd] h1 h2
  show ?thesis by blast
qed

text \<open>
  C9. Calling \<^verbatim>\<open>augment_class_images\<close> on an empty class directory with a target count
  above zero raises \<^verbatim>\<open>IndexError\<close>: \<^verbatim>\<open>random.choice\<close> is applied to the empty listing
  outside the \<^verbatim>\<open>try\<close> block. Nothing catches it, so step 5 stops with that error at
  this class, whatever classes follow.
\<close>

theorem augment_empty_raises:
  assumes "listdir (files w) (train_dir @ [cls]) = Inr []"
    and "0 < target_count"
  shows "augment_class_images L rnd (train_dir @ [cls]) target_count w = Some (Inl IndexError)
         \<and> balance_classes L rnd train_dir target_count (cls # rest) w = Some (Inl IndexError)"
  using assms by (simp add: augment_class_images_def augment_loop_empty)

theorem augment_empty_raises_witness:
  "listdir (files demo_world) ([''d''] @ [''dog'']) = Inr [] \<and> (0::int) < 7
   \<and> augment_class_images demo_imaging demo_rnd ([''d''] @ [''dog'']) 7 demo_world
        = Some (Inl IndexError)
   \<and> balance_classes demo_imaging demo_rnd [''d''] 7 [''dog'', ''cat''] demo_world
        = Some (Inl IndexError)"
proof -
  have h1: "listdir (files demo_world) ([''d''] @ [''dog'']) = Inr []"
    by (simp add: demo_world_def demo_listdir_dog)
  have h2: "(0::int) < 7" by simp
  from augment_empty_raises[OF h1 h2, of demo_imaging demo_rnd "[''cat'']"] h1 h2
  show ?thesis by blast
qed

text \<open>
  C10. For a class directory whose listing is strictly shorter than the target, a call of
  \<^verbatim>\<open>augment_class_images\<close> that returns leaves a listing of exactly \<open>target_count\<close>
  entries, never more: an iteration adds at most one entry (and removes none), and the
  length is checked before each iteration.
\<close>

theorem augment_exact_target:
  fixes w :: "'c world"
  assumes "listdir (files w) class_path = Inr images"
    and "int (length images) < target_count"
    and "augment_class_images L rnd class_path target_count w = Some (Inr w')"
  shows "(\<exists>cur. listdir (files w') class_path = Inr cur \<and> int (length cur) = target_count)
       \<and> (\<forall>(v::'c world) cur n d. listdir (files v) class_path = Inr cur \<longrightarrow>
             (\<exists>cur'. listdir (files (loop_body L class_path n d v)) class_path = Inr cur'
                 \<and> length cur \<le> length cur' \<and> length cur' \<le> Suc (length cur)))"
proof (intro conjI allI impI)
  let ?w = "w\<lparr>console := console w @ [Augmenting class_path (length images) target_count]\<rparr>"
  from assms(1,3) have run: "augment_loop L rnd class_path target_count images ?w = Some (Inr w')"
    by (simp add: augment_class_images_unfold)
  have ls: "listdir (files ?w) class_path = Inr images" using assms(1) by simp
  from assms(2) have "int (length images) \<le> target_count" by simp
  from augment_loop_count[OF run ls this]
  show "\<exists>cur. listdir (files w') class_path = Inr cur \<and> int (length cur) = target_count" .
next
  fix v :: "'c world" and cur n d
  assume "listdir (files v) class_path = Inr cur"
  from loop_body_listdir[OF this, of L n d]
  show "\<exists>cur'. listdir (files (loop_body L class_path n d v)) class_path = Inr cur'
                 \<and> length cur \<le> length cur' \<and> length cur' \<le> Suc (length cur)"
    by auto
qed

theorem augment_exact_target_witness:
  "listdir (files demo_world) [''d'', ''cat''] = Inr [''a.jpg'', ''notes.txt'', ''b.PNG'', ''c.png'']
   \<and> int (length [''a.jpg'', ''notes.txt'', ''b.PNG'', ''c.png'']) < 5
   \<and> augment_class_images demo_imaging demo_rnd [''d'', ''cat''] 5 demo_world = Some (Inr demo_world5)
   \<and> (\<exists>cur. listdir (files demo_world5) [''d'', ''cat''] = Inr cur \<and> int (length cur) = 5)"
proof -
  have h1: "listdir (files demo_world) [''d'', ''cat''] = Inr [''a.jpg'', ''notes.txt'', ''b.PNG'', ''c.png'']"
    by (simp add: demo_world_def demo_listdir_cat)
  have h2: "int (length [''a.jpg'', ''notes.txt'', ''b.PNG'', ''c.png'']) < 5" by simp
  from augment_exact_target[OF h1 h2 demo_run5] h1 h2 demo_run5 show ?thesis by blast
qed

end
